theory Spec2Isabelle
  imports Main "HOL-Library.Sublist"
begin

section \<open>Row flattening of the beneficiary batch tool (server.go)\<close>

subsection \<open>Strings: the library calls the flattener relies on\<close>

text \<open>
  Go strings are byte sequences; \<^typ>\<open>string\<close> is a list of bytes as well.
  \<open>strings.Index(s, sep)\<close> for a one-byte separator: the position of the first
  occurrence, Go's \<open>-1\<close> being \<open>None\<close> here.
\<close>

fun Index :: "string \<Rightarrow> char \<Rightarrow> nat option" where
  "Index [] sep = None"
| "Index (c # s) sep =
     (if c = sep then Some 0
      else (case Index s sep of None \<Rightarrow> None | Some i \<Rightarrow> Some (Suc i)))"

text \<open>
  \<open>strings.Split(s, sep)\<close> for a one-byte separator, as the Go library computes it:
  cut at the first separator, go on with the rest, and end with what is left. Both
  separators of the program (\<open>"."\<close> and \<open>","\<close>) are one byte long.
\<close>

function Split :: "string \<Rightarrow> char \<Rightarrow> string list" where
  "Split s sep =
     (case Index s sep of
        None \<Rightarrow> [s]
      | Some i \<Rightarrow> take i s # Split (drop (Suc i) s) sep)"
  by pat_completeness auto
termination
proof (relation "measure (\<lambda>(s, sep). length s)")
  show "wf (measure (\<lambda>(s, sep). length s))"
    by simp
next
  fix s :: string and sep :: char and i :: nat
  assume found: "Index s sep = Some i"
  have "\<And>j. Index s sep = Some j \<Longrightarrow> j < length s"
    by (induction s) (auto split: if_splits option.splits)
  from this [OF found] have "i < length s" .
  then show "((drop (Suc i) s, sep), (s, sep)) \<in> measure (\<lambda>(s, sep). length s)"
    by simp
qed

declare Split.simps [simp del]

subsection \<open>The nested record\<close>

text \<open>
  The payload is a \<open>map[string]interface{}\<close>. The dynamic types that
  \<open>buildNestedDict\<close> stores in it are \<open>string\<close>, \<open>[]string\<close> and
  \<open>map[string]interface{}\<close>. Every nested map is made by \<open>make\<close> and stored
  under one key only, so the payload is a tree and the in-place update of a nested map
  is the update of that subtree. The functions of this part work on such trees; the
  last part of the definitions has the same code on a heap of map objects, and
  \<open>flattenRow_ref_refines\<close> proves that the trees are what the heap holds.
\<close>

datatype iface =
    VString string
  | VStrings "string list"
  | VMap "string \<Rightarrow> iface option"

type_synonym dict = "string \<Rightarrow> iface option"

text \<open>The run-time panics of the flattening code.\<close>

datatype panic =
    TypeAssertion      \<comment> \<open>\<open>current[part].(map[string]interface{})\<close> on a non-map\<close>
  | IndexOutOfRange    \<comment> \<open>\<open>headers[i]\<close> with \<open>i \<ge> len(headers)\<close>\<close>

subsection \<open>buildNestedDict\<close>

text \<open>
  The \<open>for i, part := range parts\<close> loop of \<open>buildNestedDict\<close>, as a recursion on
  the parts that are left; \<open>current\<close> is the map the loop has walked to, and the result
  is that map after the rest of the loop has run.
\<close>

fun walk :: "dict \<Rightarrow> string list \<Rightarrow> string \<Rightarrow> panic + dict" where
  "walk current [] val = Inr current"
| "walk current [part] val =
     Inr (if val \<noteq> [] then current(part \<mapsto> VString val) else current)"
| "walk current (part # rest) val =
     (let current' =
        (if current part = None then current(part \<mapsto> VMap Map.empty) else current)
      in case current' part of
           Some (VMap sub) \<Rightarrow>
             (case walk sub rest val of
                Inl e \<Rightarrow> Inl e
              | Inr sub' \<Rightarrow> Inr (current'(part \<mapsto> VMap sub')))
         | _ \<Rightarrow> Inl TypeAssertion)"

text \<open>
  The map the loop steps into at a part that is not the last one: a fresh map where the
  key is absent, the map that is stored there, and nothing where the type assertion
  fails.
\<close>

definition enter :: "dict \<Rightarrow> string \<Rightarrow> dict option" where
  "enter current part =
     (case current part of
        None \<Rightarrow> Some Map.empty
      | Some (VMap sub) \<Rightarrow> Some sub
      | Some _ \<Rightarrow> None)"

definition buildNestedDict :: "dict \<Rightarrow> string \<Rightarrow> string \<Rightarrow> panic + dict" where
  "buildNestedDict dict path val =
     (let parts = Split path CHR ''.'' in
      if path = ''payment_methods'' \<or> path = ''transfer_methods''
      then Inr (dict(path \<mapsto> VStrings (Split val CHR '','')))
      else walk dict parts val)"

subsection \<open>The loop over one row (validateBeneficiaries)\<close>

text \<open>
  \<open>for i, value := range row { buildNestedDict(payload, headers[i], value) }\<close>:
  \<open>i\<close> is the index of the first value that is left.
\<close>

fun rowLoop :: "dict \<Rightarrow> string list \<Rightarrow> nat \<Rightarrow> string list \<Rightarrow> panic + dict" where
  "rowLoop payload headers i [] = Inr payload"
| "rowLoop payload headers i (val # row) =
     (if i < length headers
      then (case buildNestedDict payload (headers ! i) val of
              Inl e \<Rightarrow> Inl e
            | Inr payload' \<Rightarrow> rowLoop payload' headers (Suc i) row)
      else Inl IndexOutOfRange)"

text \<open>\<open>payload := make(map[string]interface{})\<close>, then the loop.\<close>

definition flattenRow :: "string list \<Rightarrow> string list \<Rightarrow> panic + dict" where
  "flattenRow headers row = rowLoop Map.empty headers 0 row"

subsection \<open>Reading a record along a path\<close>

text \<open>
  What sits in a value at a path of keys: the value itself at the empty path, nothing
  where a key is absent or where the path goes on below a string or a list.
\<close>

fun get_path :: "iface \<Rightarrow> string list \<Rightarrow> iface option" where
  "get_path x [] = Some x"
| "get_path (VMap m) (k # ks) =
     (case m k of None \<Rightarrow> None | Some y \<Rightarrow> get_path y ks)"
| "get_path (VString s) (k # ks) = None"
| "get_path (VStrings l) (k # ks) = None"

definition lookup_path :: "dict \<Rightarrow> string list \<Rightarrow> iface option" where
  "lookup_path d p = get_path (VMap d) p"

text \<open>A leaf is a string or a list of strings; the other values are nested records.\<close>

fun is_leaf :: "iface \<Rightarrow> bool" where
  "is_leaf (VMap m) = False"
| "is_leaf (VString s) = True"
| "is_leaf (VStrings l) = True"

text \<open>The two headers that \<open>buildNestedDict\<close> compares the whole path with.\<close>

definition reserved :: "string \<Rightarrow> bool" where
  "reserved path = (path = ''payment_methods'' \<or> path = ''transfer_methods'')"

subsection \<open>Header paths and collisions\<close>

text \<open>\<open>parts := strings.Split(path, ".")\<close>, the first line of \<open>buildNestedDict\<close>.\<close>

definition parts :: "string \<Rightarrow> string list" where
  "parts path = Split path CHR ''.''"

text \<open>
  A pair (header, value) writes a leaf when the header is reserved (a list is stored
  whatever the value is) or the value is not empty (a string is stored at the last part).
\<close>

definition writes_leaf :: "string \<Rightarrow> string \<Rightarrow> bool" where
  "writes_leaf path val = (reserved path \<or> val \<noteq> [])"

definition leaf_value :: "string \<Rightarrow> string \<Rightarrow> iface" where
  "leaf_value path val =
     (if reserved path then VStrings (Split val CHR '','') else VString val)"

text \<open>
  No collision in a row: no pair that writes a leaf is followed by a header whose path
  goes on below that leaf.
\<close>

definition no_collision :: "string list \<Rightarrow> string list \<Rightarrow> bool" where
  "no_collision headers row =
     (\<forall>j \<in> {0..<length headers}. \<forall>i \<in> {0..<j}.
        \<not> (writes_leaf (headers ! i) (row ! i) \<and>
           strict_prefix (parts (headers ! i)) (parts (headers ! j))))"

text \<open>A header list is free of collisions when no path is a proper prefix of another.\<close>

definition collision_free :: "string list \<Rightarrow> bool" where
  "collision_free headers =
     (\<forall>h1 \<in> set headers. \<forall>h2 \<in> set headers. \<not> strict_prefix (parts h1) (parts h2))"

text \<open>The payload after the first \<open>n\<close> rounds of the loop over a row.\<close>

definition rowPrefix :: "string list \<Rightarrow> string list \<Rightarrow> nat \<Rightarrow> panic + dict" where
  "rowPrefix headers row n = rowLoop Map.empty headers 0 (take n row)"

subsection \<open>The same code on a heap of map objects\<close>

text \<open>
  A Go map is a reference: \<open>current = current[part].(map[string]interface{})\<close> makes
  \<open>current\<close> point to the nested map, and \<open>current[part] = value\<close> updates that
  object in place. Here the heap is the list of the map objects that exist, an address
  is an index into it, and \<open>make\<close> appends an empty object. The functions below are
  the code once more, on addresses; \<open>current\<close> and \<open>dict\<close> are assumed to be
  addresses of the heap, as references of a running program are.
\<close>

type_synonym addr = nat

datatype ref_val =
    RString string
  | RStrings "string list"
  | RMap addr

type_synonym obj = "string \<Rightarrow> ref_val option"
type_synonym heap = "obj list"

definition make :: "heap \<Rightarrow> heap \<times> addr" where
  "make h = (h @ [Map.empty], length h)"

fun walk_ref :: "heap \<Rightarrow> addr \<Rightarrow> string list \<Rightarrow> string \<Rightarrow> panic + heap" where
  "walk_ref h current [] val = Inr h"
| "walk_ref h current [part] val =
     Inr (if val \<noteq> [] then h[current := (h ! current)(part \<mapsto> RString val)] else h)"
| "walk_ref h current (part # rest) val =
     (let h' =
        (if (h ! current) part = None
         then (case make h of (h1, a) \<Rightarrow> h1[current := (h1 ! current)(part \<mapsto> RMap a)])
         else h)
      in case (h' ! current) part of
           Some (RMap a) \<Rightarrow> walk_ref h' a rest val
         | _ \<Rightarrow> Inl TypeAssertion)"

definition buildNestedDict_ref :: "heap \<Rightarrow> addr \<Rightarrow> string \<Rightarrow> string \<Rightarrow> panic + heap" where
  "buildNestedDict_ref h dict path val =
     (let parts = Split path CHR ''.'' in
      if path = ''payment_methods'' \<or> path = ''transfer_methods''
      then Inr (h[dict := (h ! dict)(path \<mapsto> RStrings (Split val CHR '',''))])
      else walk_ref h dict parts val)"

fun rowLoop_ref :: "heap \<Rightarrow> addr \<Rightarrow> string list \<Rightarrow> nat \<Rightarrow> string list \<Rightarrow> panic + heap" where
  "rowLoop_ref h payload headers i [] = Inr h"
| "rowLoop_ref h payload headers i (val # row) =
     (if i < length headers
      then (case buildNestedDict_ref h payload (headers ! i) val of
              Inl e \<Rightarrow> Inl e
            | Inr h' \<Rightarrow> rowLoop_ref h' payload headers (Suc i) row)
      else Inl IndexOutOfRange)"

definition flattenRow_ref :: "heap \<Rightarrow> string list \<Rightarrow> string list \<Rightarrow> panic + heap \<times> addr" where
  "flattenRow_ref h headers row =
     (case make h of (h0, payload) \<Rightarrow>
        (case rowLoop_ref h0 payload headers 0 row of
           Inl e \<Rightarrow> Inl e
         | Inr h' \<Rightarrow> Inr (h', payload)))"

text \<open>
  \<open>repr h F rv v\<close>: in the heap \<open>h\<close> the value \<open>rv\<close> holds the tree \<open>v\<close>, and
  \<open>F\<close> is the set of the addresses of its map objects. No object occurs twice in
  it: the objects under different keys are disjoint, and none of them is the record
  they hang from.
\<close>

inductive repr :: "heap \<Rightarrow> addr set \<Rightarrow> ref_val \<Rightarrow> iface \<Rightarrow> bool" for h where
  repr_string: "repr h {} (RString s) (VString s)"
| repr_strings: "repr h {} (RStrings l) (VStrings l)"
| repr_map: "a < length h \<Longrightarrow>
     (\<And>k. (h ! a) k = None \<and> d k = None \<and> Fk k = {} \<or>
          (\<exists>rv v. (h ! a) k = Some rv \<and> d k = Some v \<and> repr h (Fk k) rv v)) \<Longrightarrow>
     (\<And>k. a \<notin> Fk k) \<Longrightarrow>
     (\<And>k k'. k \<noteq> k' \<Longrightarrow> Fk k \<inter> Fk k' = {}) \<Longrightarrow>
     repr h (insert a (\<Union>k. Fk k)) (RMap a) (VMap d)"

text \<open>
  A result on the heap refines a result on trees: the same panic, or a heap in which
  the record at \<open>cur\<close> holds the new tree, made of objects it had before or that are
  new, with every other object that existed before left as it was.
\<close>

definition refines_at ::
  "heap \<Rightarrow> addr set \<Rightarrow> addr \<Rightarrow> panic + dict \<Rightarrow> panic + heap \<Rightarrow> bool" where
  "refines_at h F cur tr hr =
     (case tr of
        Inl e \<Rightarrow> hr = Inl e
      | Inr d' \<Rightarrow>
          (\<exists>h' F'. hr = Inr h' \<and> repr h' F' (RMap cur) (VMap d') \<and>
             F' \<subseteq> F \<union> {length h..<length h'} \<and> length h \<le> length h' \<and>
             (\<forall>x<length h. x \<notin> F \<longrightarrow> h' ! x = h ! x)))"

section \<open>Properties of the embedding\<close>

subsection \<open>Reading along a path\<close>

lemma lookup_path_Nil [simp]: "lookup_path d [] = Some (VMap d)"
  by (simp add: lookup_path_def)

lemma lookup_path_Cons:
  "lookup_path d (k # ks) =
     (case d k of None \<Rightarrow> None | Some y \<Rightarrow> get_path y ks)"
  by (simp add: lookup_path_def)

lemma lookup_path_empty [simp]: "q \<noteq> [] \<Longrightarrow> lookup_path Map.empty q = None"
  by (cases q) (auto simp: lookup_path_Cons)

lemma get_path_leaf: "is_leaf x \<Longrightarrow> ks \<noteq> [] \<Longrightarrow> get_path x ks = None"
  by (cases x; cases ks) auto

text \<open>One round of the loop at a part that is not the last.\<close>

lemma walk_enter:
  "walk d (k # r # rs) v =
     (case enter d k of
        None \<Rightarrow> Inl TypeAssertion
      | Some sub \<Rightarrow>
          (case walk sub (r # rs) v of
             Inl e \<Rightarrow> Inl e
           | Inr sub' \<Rightarrow> Inr (d(k \<mapsto> VMap sub'))))"
  by (auto simp: enter_def Let_def split: option.splits iface.splits sum.splits)

lemma lookup_path_enter:
  assumes "enter d k = Some sub" and "ks \<noteq> []"
  shows "lookup_path d (k # ks) = lookup_path sub ks"
  using assms
  by (cases ks) (auto simp: enter_def lookup_path_Cons split: option.splits iface.splits)

lemma walk_step:
  assumes "walk d (k # r # rs) v = Inr d'"
  shows "\<exists>sub sub'.
    walk sub (r # rs) v = Inr sub' \<and>
    (\<forall>ks. lookup_path d' (k # ks) = lookup_path sub' ks) \<and>
    (\<forall>ks. ks \<noteq> [] \<longrightarrow> lookup_path d (k # ks) = lookup_path sub ks) \<and>
    (\<forall>k' ks. k' \<noteq> k \<longrightarrow> lookup_path d' (k' # ks) = lookup_path d (k' # ks))"
proof -
  from assms obtain sub sub' where
    sub: "enter d k = Some sub"
    and w: "walk sub (r # rs) v = Inr sub'"
    and d': "d' = d(k \<mapsto> VMap sub')"
    by (auto simp: walk_enter simp del: walk.simps split: option.splits sum.splits)
  have "lookup_path d' (k # ks) = lookup_path sub' ks" for ks
    unfolding d' by (simp add: lookup_path_def)
  moreover have "lookup_path d (k # ks) = lookup_path sub ks" if "ks \<noteq> []" for ks
    using sub that by (rule lookup_path_enter)
  moreover have "lookup_path d' (k' # ks) = lookup_path d (k' # ks)" if "k' \<noteq> k" for k' ks
    unfolding d' using that by (simp add: lookup_path_Cons)
  ultimately show ?thesis
    using w by blast
qed

lemma walk_frame:
  "walk d p v = Inr d' \<Longrightarrow> \<not> prefix q p \<Longrightarrow> \<not> prefix p q \<Longrightarrow>
   lookup_path d' q = lookup_path d q"
proof (induction p arbitrary: d d' q)
  case Nil
  then show ?case by simp
next
  case (Cons part rest)
  from Cons.prems(2) obtain k ks where q: "q = k # ks" by (cases q) auto
  show ?case
  proof (cases rest)
    case Nil
    with Cons.prems q show ?thesis by (auto simp: lookup_path_Cons)
  next
    case rest: (Cons r rs)
    from Cons.prems(1) obtain sub sub' where
      w: "walk sub rest v = Inr sub'"
      and new: "\<And>ks. lookup_path d' (part # ks) = lookup_path sub' ks"
      and old: "\<And>ks. ks \<noteq> [] \<Longrightarrow> lookup_path d (part # ks) = lookup_path sub ks"
      and other: "\<And>k' ks. k' \<noteq> part \<Longrightarrow> lookup_path d' (k' # ks) = lookup_path d (k' # ks)"
      using walk_step [of d part r rs v d'] unfolding rest by blast
    show ?thesis
    proof (cases "k = part")
      case False
      then show ?thesis by (simp add: q other)
    next
      case True
      with Cons.prems q have inc: "\<not> prefix ks rest" "\<not> prefix rest ks"
        by auto
      then have ks: "ks \<noteq> []" by auto
      have "lookup_path sub' ks = lookup_path sub ks"
        using w inc by (rule Cons.IH)
      then show ?thesis
        by (simp add: q True new old [OF ks])
    qed
  qed
qed

text \<open>The walk goes through when no leaf sits at a part that is not the last.\<close>

lemma walk_returns:
  assumes "\<And>q x. q \<noteq> [] \<Longrightarrow> strict_prefix q p \<Longrightarrow> lookup_path d q = Some x \<Longrightarrow> \<not> is_leaf x"
  shows "\<exists>d'. walk d p v = Inr d'"
  using assms
proof (induction p arbitrary: d)
  case Nil
  then show ?case by simp
next
  case (Cons part rest)
  show ?case
  proof (cases rest)
    case Nil
    then show ?thesis by simp
  next
    case rest: (Cons r rs)
    have "\<exists>sub. enter d part = Some sub"
    proof (cases "d part")
      case None
      then show ?thesis by (simp add: enter_def)
    next
      case (Some x)
      then have "lookup_path d [part] = Some x" by (simp add: lookup_path_Cons)
      with Cons.prems[of "[part]" x] rest have "\<not> is_leaf x" by simp
      with Some show ?thesis by (cases x) (auto simp: enter_def)
    qed
    then obtain sub where sub: "enter d part = Some sub" ..
    have "\<exists>sub'. walk sub rest v = Inr sub'"
    proof (rule Cons.IH)
      fix q x
      assume q: "q \<noteq> []" "strict_prefix q rest" and l: "lookup_path sub q = Some x"
      from l q(1) have "lookup_path d (part # q) = Some x"
        by (simp add: lookup_path_enter [OF sub])
      with q(2) show "\<not> is_leaf x"
        by (intro Cons.prems[of "part # q" x]) auto
    qed
    then obtain sub' where "walk sub rest v = Inr sub'" ..
    with sub show ?thesis
      unfolding rest by (simp add: walk_enter del: walk.simps)
  qed
qed

text \<open>What the walk leaves at the path itself, above it and below it.\<close>

lemma walk_at_path:
  "walk d p v = Inr d' \<Longrightarrow> p \<noteq> [] \<Longrightarrow>
   lookup_path d' p = (if v \<noteq> [] then Some (VString v) else lookup_path d p)"
proof (induction p arbitrary: d d')
  case Nil
  then show ?case by simp
next
  case (Cons part rest)
  show ?case
  proof (cases rest)
    case Nil
    with Cons.prems show ?thesis by (auto simp: lookup_path_Cons)
  next
    case rest: (Cons r rs)
    from Cons.prems(1) obtain sub sub' where
      w: "walk sub rest v = Inr sub'"
      and new: "\<And>ks. lookup_path d' (part # ks) = lookup_path sub' ks"
      and old: "\<And>ks. ks \<noteq> [] \<Longrightarrow> lookup_path d (part # ks) = lookup_path sub ks"
      using walk_step [of d part r rs v d'] unfolding rest by blast
    have ne: "rest \<noteq> []" by (simp add: rest)
    from Cons.IH[OF w ne] show ?thesis
      by (simp add: new old [OF ne])
  qed
qed

lemma walk_above:
  "walk d p v = Inr d' \<Longrightarrow> strict_prefix q p \<Longrightarrow> \<exists>m. lookup_path d' q = Some (VMap m)"
proof (induction p arbitrary: d d' q)
  case Nil
  then show ?case by simp
next
  case (Cons part rest)
  show ?case
  proof (cases q)
    case Nil
    then show ?thesis by simp
  next
    case q: (Cons k ks)
    with Cons.prems(2) have k: "k = part" and ks: "strict_prefix ks rest"
      by auto
    then obtain r rs where rest: "rest = r # rs" by (cases rest) auto
    from Cons.prems(1) obtain sub sub' where
      w: "walk sub rest v = Inr sub'"
      and new: "\<And>ks. lookup_path d' (part # ks) = lookup_path sub' ks"
      using walk_step [of d part r rs v d'] unfolding rest by blast
    from Cons.IH[OF w ks] show ?thesis
      by (simp add: q k new)
  qed
qed

lemma walk_below:
  "walk d p v = Inr d' \<Longrightarrow> p \<noteq> [] \<Longrightarrow> strict_prefix p q \<Longrightarrow>
   lookup_path d' q = (if v \<noteq> [] then None else lookup_path d q)"
proof (induction p arbitrary: d d' q)
  case Nil
  then show ?case by simp
next
  case (Cons part rest)
  from Cons.prems(3) obtain ks where q: "q = part # ks" and ks: "strict_prefix rest ks"
    by (cases q) auto
  show ?case
  proof (cases rest)
    case Nil
    with ks have "ks \<noteq> []" by auto
    with Cons.prems Nil q show ?thesis
      by (cases ks) (auto simp: lookup_path_Cons)
  next
    case rest: (Cons r rs)
    from Cons.prems(1) obtain sub sub' where
      w: "walk sub rest v = Inr sub'"
      and new: "\<And>ks. lookup_path d' (part # ks) = lookup_path sub' ks"
      and old: "\<And>ks. ks \<noteq> [] \<Longrightarrow> lookup_path d (part # ks) = lookup_path sub ks"
      using walk_step [of d part r rs v d'] unfolding rest by blast
    have ne: "rest \<noteq> []" by (simp add: rest)
    from ks ne have kne: "ks \<noteq> []" by auto
    from Cons.IH[OF w ne ks] show ?thesis
      by (simp add: q new old [OF kne])
  qed
qed

subsection \<open>buildNestedDict along the parts of its path\<close>

lemma Split_not_Nil [simp]: "Split s sep \<noteq> []"
  by (subst Split.simps) (simp split: option.splits)

lemma parts_not_Nil [simp]: "parts path \<noteq> []"
  by (simp add: parts_def)

lemma parts_reserved: "reserved path \<Longrightarrow> parts path = [path]"
  by (auto simp: reserved_def parts_def Split.simps)

lemma buildNestedDict_reserved:
  "reserved path \<Longrightarrow>
   buildNestedDict d path v = Inr (d(path \<mapsto> VStrings (Split v CHR '','')))"
  by (auto simp: buildNestedDict_def reserved_def)

lemma buildNestedDict_walk:
  "\<not> reserved path \<Longrightarrow> buildNestedDict d path v = walk d (parts path) v"
  by (auto simp: buildNestedDict_def reserved_def parts_def Let_def)

lemma build_frame:
  assumes "buildNestedDict d path v = Inr d'"
    and "\<not> prefix q (parts path)" and "\<not> prefix (parts path) q"
  shows "lookup_path d' q = lookup_path d q"
proof (cases "reserved path")
  case False
  with assms show ?thesis
    by (auto simp: buildNestedDict_walk intro: walk_frame)
next
  case True
  from assms(2) obtain k ks where q: "q = k # ks" by (cases q) auto
  with assms(3) True have "k \<noteq> path" by (auto simp: parts_reserved)
  moreover from assms(1) True have "d' = d(path \<mapsto> VStrings (Split v CHR '',''))"
    by (simp add: buildNestedDict_reserved)
  ultimately have "d' k = d k" by simp
  then show ?thesis by (simp add: q lookup_path_Cons)
qed

lemma build_at_path:
  assumes "buildNestedDict d path v = Inr d'"
  shows "lookup_path d' (parts path) =
    (if writes_leaf path v then Some (leaf_value path v) else lookup_path d (parts path))"
proof (cases "reserved path")
  case False
  with assms have "walk d (parts path) v = Inr d'"
    by (simp add: buildNestedDict_walk)
  from walk_at_path [OF this parts_not_Nil] False show ?thesis
    by (simp add: writes_leaf_def leaf_value_def)
next
  case True
  with assms have "d' path = Some (VStrings (Split v CHR '',''))"
    by (auto simp: buildNestedDict_reserved)
  with True show ?thesis
    by (simp add: parts_reserved writes_leaf_def leaf_value_def lookup_path_Cons)
qed

lemma build_above:
  assumes "buildNestedDict d path v = Inr d'" and "strict_prefix q (parts path)"
  shows "\<exists>m. lookup_path d' q = Some (VMap m)"
proof (cases "reserved path")
  case False
  with assms show ?thesis
    by (auto simp: buildNestedDict_walk intro: walk_above)
next
  case True
  with assms(2) have "q = []" by (cases q) (auto simp: parts_reserved)
  then show ?thesis by simp
qed

lemma build_below:
  assumes "buildNestedDict d path v = Inr d'" and "strict_prefix (parts path) q"
  shows "lookup_path d' q = (if writes_leaf path v then None else lookup_path d q)"
proof (cases "reserved path")
  case False
  with assms have "walk d (parts path) v = Inr d'"
    by (simp add: buildNestedDict_walk)
  from walk_below [OF this parts_not_Nil assms(2)] False show ?thesis
    by (simp add: writes_leaf_def)
next
  case True
  with assms(2) obtain k ks where q: "q = path # k # ks"
    by (cases q; cases "tl q") (auto simp: parts_reserved)
  from assms(1) True have "d' path = Some (VStrings (Split v CHR '',''))"
    by (auto simp: buildNestedDict_reserved)
  with True show ?thesis
    by (simp add: q writes_leaf_def lookup_path_Cons)
qed

lemma build_returns:
  assumes "\<And>q x. q \<noteq> [] \<Longrightarrow> strict_prefix q (parts path) \<Longrightarrow>
    lookup_path d q = Some x \<Longrightarrow> \<not> is_leaf x"
  shows "\<exists>d'. buildNestedDict d path v = Inr d'"
proof (cases "reserved path")
  case False
  with assms show ?thesis
    by (simp add: buildNestedDict_walk walk_returns)
next
  case True
  then show ?thesis by (simp add: buildNestedDict_reserved)
qed

subsection \<open>The loop over a row, round by round\<close>

lemma rowLoop_snoc:
  "rowLoop d hs i (vs @ [v]) =
     (case rowLoop d hs i vs of
        Inl e \<Rightarrow> Inl e
      | Inr d' \<Rightarrow>
          if i + length vs < length hs
          then buildNestedDict d' (hs ! (i + length vs)) v
          else Inl IndexOutOfRange)"
proof (induction vs arbitrary: d i)
  case Nil
  then show ?case by (simp split: sum.splits)
next
  case (Cons a vs)
  then show ?case by (auto split: sum.splits)
qed

lemma rowPrefix_0 [simp]: "rowPrefix hs vs 0 = Inr Map.empty"
  by (simp add: rowPrefix_def)

lemma rowPrefix_Suc:
  assumes "n < length vs"
  shows "rowPrefix hs vs (Suc n) =
     (case rowPrefix hs vs n of
        Inl e \<Rightarrow> Inl e
      | Inr d \<Rightarrow>
          if n < length hs then buildNestedDict d (hs ! n) (vs ! n)
          else Inl IndexOutOfRange)"
proof -
  from assms have "take (Suc n) vs = take n vs @ [vs ! n]"
    by (rule take_Suc_conv_app_nth)
  moreover from assms have "length (take n vs) = n" by simp
  ultimately show ?thesis
    by (simp add: rowPrefix_def rowLoop_snoc del: length_take split: sum.splits)
qed

lemma rowPrefix_length: "rowPrefix hs vs (length vs) = flattenRow hs vs"
  by (simp add: rowPrefix_def flattenRow_def)

lemma rowPrefix_panic:
  assumes "rowPrefix hs vs n = Inl e" and "n \<le> m" and "m \<le> length vs"
  shows "rowPrefix hs vs m = Inl e"
  using assms(2,3)
proof (induction m rule: dec_induct)
  case base
  from assms(1) show ?case .
next
  case (step k)
  then show ?case by (simp add: rowPrefix_Suc)
qed

lemma rowPrefix_returns:
  assumes "flattenRow hs vs = Inr d" and "n \<le> length vs"
  shows "\<exists>d'. rowPrefix hs vs n = Inr d'"
proof (cases "rowPrefix hs vs n")
  case (Inl e)
  from rowPrefix_panic [OF this assms(2) order_refl] assms(1) show ?thesis
    by (simp add: rowPrefix_length)
next
  case (Inr d')
  then show ?thesis by simp
qed

text \<open>A round that returns took its header from the header list.\<close>

lemma rowPrefix_step:
  assumes "rowPrefix hs vs (Suc n) = Inr d'" and "n < length vs"
  shows "\<exists>d. rowPrefix hs vs n = Inr d \<and> n < length hs \<and>
    buildNestedDict d (hs ! n) (vs ! n) = Inr d'"
  using assms by (auto simp: rowPrefix_Suc split: sum.splits if_splits)

subsection \<open>Where the leaves of the payload are\<close>

lemma path_cases:
  obtains (above) "strict_prefix q p" | (same) "q = p" | (below) "strict_prefix p q"
  | (apart) "\<not> prefix q p" "\<not> prefix p q"
  by (auto simp: strict_prefix_def)

text \<open>
  One call: a leaf of the new record is the leaf this call has written, or a leaf of the
  old record.
\<close>

lemma build_leaves:
  assumes b: "buildNestedDict d path v = Inr d'"
    and l: "lookup_path d' q = Some x" and x: "is_leaf x"
  shows "writes_leaf path v \<and> q = parts path \<or> lookup_path d q = Some x"
proof (cases q "parts path" rule: path_cases)
  case above
  from build_above [OF b above] l x show ?thesis by auto
next
  case same
  with build_at_path [OF b] l show ?thesis by (auto split: if_splits)
next
  case below
  with build_below [OF b below] l show ?thesis by (auto split: if_splits)
next
  case apart
  with build_frame [OF b apart] l show ?thesis by simp
qed

text \<open>
  The loop under \<open>no_collision\<close>: every round returns, and every leaf of the payload
  sits at the path of a pair that wrote one.
\<close>

lemma rowPrefix_no_collision:
  assumes nc: "no_collision hs vs" and len: "length hs = length vs"
  shows "n \<le> length vs \<Longrightarrow>
    \<exists>d. rowPrefix hs vs n = Inr d \<and>
      (\<forall>q x. lookup_path d q = Some x \<longrightarrow> is_leaf x \<longrightarrow>
         (\<exists>k<n. writes_leaf (hs ! k) (vs ! k) \<and> q = parts (hs ! k)))"
proof (induction n)
  case 0
  have "\<not> is_leaf x" if "lookup_path Map.empty q = Some x" for q x
    using that by (cases q) (auto simp: lookup_path_Cons)
  then show ?case by auto
next
  case (Suc n)
  then have n: "n < length vs" by simp
  with Suc.IH obtain d where
    d: "rowPrefix hs vs n = Inr d"
    and leaves: "\<And>q x. lookup_path d q = Some x \<Longrightarrow> is_leaf x \<Longrightarrow>
      \<exists>k<n. writes_leaf (hs ! k) (vs ! k) \<and> q = parts (hs ! k)"
    by auto
  have "\<exists>d'. buildNestedDict d (hs ! n) (vs ! n) = Inr d'"
  proof (rule build_returns)
    fix q x
    assume q: "strict_prefix q (parts (hs ! n))" and l: "lookup_path d q = Some x"
    show "\<not> is_leaf x"
    proof
      assume "is_leaf x"
      from leaves [OF l this] obtain k where
        "k < n" "writes_leaf (hs ! k) (vs ! k)" "q = parts (hs ! k)"
        by auto
      with nc n len q show False
        by (auto simp: no_collision_def)
    qed
  qed
  then obtain d' where d': "buildNestedDict d (hs ! n) (vs ! n) = Inr d'" ..
  with d n len have run: "rowPrefix hs vs (Suc n) = Inr d'"
    by (simp add: rowPrefix_Suc)
  have "\<exists>k<Suc n. writes_leaf (hs ! k) (vs ! k) \<and> q = parts (hs ! k)"
    if "lookup_path d' q = Some x" "is_leaf x" for q x
    using build_leaves [OF d' that] leaves [of q x] that(2)
    by (auto simp: less_Suc_eq)
  with run show ?case by blast
qed

lemma is_leaf_leaf_value [simp]: "is_leaf (leaf_value path v)"
  by (simp add: leaf_value_def)

text \<open>
  The loop over collision-free headers: a pair that wrote a leaf still has a leaf at its
  path, and the parts above the path of a pair that was processed are records.
\<close>

lemma rowPrefix_collision_free:
  assumes cf: "collision_free hs" and len: "length hs = length vs"
  shows "n \<le> length vs \<Longrightarrow> rowPrefix hs vs n = Inr d \<Longrightarrow>
    (\<forall>k<n. writes_leaf (hs ! k) (vs ! k) \<longrightarrow>
       (\<exists>x. lookup_path d (parts (hs ! k)) = Some x \<and> is_leaf x)) \<and>
    (\<forall>k<n. \<forall>q. strict_prefix q (parts (hs ! k)) \<longrightarrow>
       (\<exists>m. lookup_path d q = Some (VMap m)))"
proof (induction n arbitrary: d)
  case 0
  then show ?case by simp
next
  case (Suc n)
  then have n: "n < length vs" by simp
  from rowPrefix_step [OF Suc.prems(2) n] obtain d0 where
    d0: "rowPrefix hs vs n = Inr d0"
    and b: "buildNestedDict d0 (hs ! n) (vs ! n) = Inr d"
    by auto
  from n have "n \<le> length vs" by simp
  from Suc.IH [OF this d0] have
    old_leaf: "\<And>k. k < n \<Longrightarrow> writes_leaf (hs ! k) (vs ! k) \<Longrightarrow>
      \<exists>x. lookup_path d0 (parts (hs ! k)) = Some x \<and> is_leaf x"
    and old_rec: "\<And>k q. k < n \<Longrightarrow> strict_prefix q (parts (hs ! k)) \<Longrightarrow>
      \<exists>m. lookup_path d0 q = Some (VMap m)"
    by auto
  have free: "\<not> strict_prefix (parts (hs ! i)) (parts (hs ! j))"
    if "i \<le> n" "j \<le> n" for i j
    using cf that n len by (auto simp: collision_free_def)
  have leaf: "\<exists>x. lookup_path d (parts (hs ! k)) = Some x \<and> is_leaf x"
    if k: "k < Suc n" and w: "writes_leaf (hs ! k) (vs ! k)" for k
  proof (cases "parts (hs ! k)" "parts (hs ! n)" rule: path_cases)
    case above
    with free [of k n] k show ?thesis by simp
  next
    case below
    with free [of n k] k show ?thesis by simp
  next
    case same
    show ?thesis
    proof (cases "writes_leaf (hs ! n) (vs ! n)")
      case True
      with build_at_path [OF b] same show ?thesis by simp
    next
      case False
      with w have "k < n" using k by (cases "k = n") auto
      from old_leaf [OF this w] build_at_path [OF b] False same show ?thesis
        by simp
    qed
  next
    case apart
    then have "k \<noteq> n" by auto
    with k have "k < n" by simp
    from old_leaf [OF this w] build_frame [OF b apart] show ?thesis by simp
  qed
  have recd: "\<exists>m. lookup_path d q = Some (VMap m)"
    if k: "k < Suc n" and q: "strict_prefix q (parts (hs ! k))" for k q
  proof (cases q "parts (hs ! n)" rule: path_cases)
    case above
    from build_above [OF b this] show ?thesis .
  next
    case same
    with q free [of n k] k show ?thesis by simp
  next
    case below
    from this q have "strict_prefix (parts (hs ! n)) (parts (hs ! k))"
      by (rule prefix_order.less_trans)
    with free [of n k] k show ?thesis by simp
  next
    case apart
    with q have "k \<noteq> n" by (auto simp: strict_prefix_def)
    with k have "k < n" by simp
    from old_rec [OF this q] build_frame [OF b apart] show ?thesis by simp
  qed
  from leaf recd show ?case by blast
qed

text \<open>Collision-free headers rule out a collision in every row.\<close>

lemma collision_free_no_collision:
  assumes "collision_free hs"
  shows "no_collision hs vs"
  using assms by (auto simp: collision_free_def no_collision_def)

subsection \<open>Writing twice at one path\<close>

lemma walk_twice:
  "walk d p v1 = Inr d1 \<Longrightarrow> v2 \<noteq> [] \<Longrightarrow> walk d1 p v2 = walk d p v2"
proof (induction p arbitrary: d d1)
  case Nil
  then show ?case by simp
next
  case (Cons part rest)
  show ?case
  proof (cases rest)
    case Nil
    with Cons.prems show ?thesis by (auto split: if_splits)
  next
    case rest: (Cons r rs)
    from Cons.prems(1) obtain sub sub1 where
      sub: "enter d part = Some sub"
      and w: "walk sub rest v1 = Inr sub1"
      and d1: "d1 = d(part \<mapsto> VMap sub1)"
      unfolding rest
      by (auto simp: walk_enter simp del: walk.simps split: option.splits sum.splits)
    have "enter d1 part = Some sub1"
      unfolding d1 by (simp add: enter_def)
    moreover have "d1(part \<mapsto> x) = d(part \<mapsto> x)" for x
      unfolding d1 by simp
    moreover note Cons.IH [OF w Cons.prems(2)] sub
    ultimately show ?thesis
      unfolding rest by (simp add: walk_enter del: walk.simps split: sum.splits)
  qed
qed

lemma build_twice:
  assumes "buildNestedDict d path v1 = Inr d1" and "writes_leaf path v2"
  shows "buildNestedDict d1 path v2 = buildNestedDict d path v2"
proof (cases "reserved path")
  case True
  with assms(1) show ?thesis
    by (auto simp: buildNestedDict_reserved)
next
  case False
  with assms show ?thesis
    by (simp add: buildNestedDict_walk writes_leaf_def walk_twice)
qed

text \<open>The last pair that writes at a path decides what the payload holds there.\<close>

lemma rowPrefix_last_write:
  assumes j: "j < length hs" and len: "length hs = length vs"
    and w: "writes_leaf (hs ! j) (vs ! j)"
    and later: "\<And>k. j < k \<Longrightarrow> k < length hs \<Longrightarrow>
      hs ! k = hs ! j \<and> \<not> writes_leaf (hs ! k) (vs ! k) \<or>
      \<not> prefix (parts (hs ! k)) (parts (hs ! j)) \<and> \<not> prefix (parts (hs ! j)) (parts (hs ! k))"
  shows "j < n \<Longrightarrow> n \<le> length vs \<Longrightarrow> rowPrefix hs vs n = Inr d \<Longrightarrow>
    lookup_path d (parts (hs ! j)) = Some (leaf_value (hs ! j) (vs ! j))"
proof (induction n arbitrary: d)
  case 0
  then show ?case by simp
next
  case (Suc n)
  then have n: "n < length vs" by simp
  from rowPrefix_step [OF Suc.prems(3) n] obtain d0 where
    d0: "rowPrefix hs vs n = Inr d0"
    and b: "buildNestedDict d0 (hs ! n) (vs ! n) = Inr d"
    by auto
  show ?case
  proof (cases "j = n")
    case True
    with build_at_path [OF b] w show ?thesis by simp
  next
    case False
    with Suc.prems have jn: "j < n" by simp
    from n have "n \<le> length vs" by simp
    from Suc.IH [OF jn this d0] have
      old: "lookup_path d0 (parts (hs ! j)) = Some (leaf_value (hs ! j) (vs ! j))" .
    from later [OF jn] n len consider
      (again) "hs ! n = hs ! j" "\<not> writes_leaf (hs ! n) (vs ! n)"
      | (apart) "\<not> prefix (parts (hs ! j)) (parts (hs ! n))"
          "\<not> prefix (parts (hs ! n)) (parts (hs ! j))"
      by auto
    then show ?thesis
    proof cases
      case again
      with build_at_path [OF b] old show ?thesis by simp
    next
      case apart
      from build_frame [OF b apart] old show ?thesis by simp
    qed
  qed
qed

subsection \<open>What Split keeps\<close>

lemma concat_Split: "concat (Split s sep) = filter (\<lambda>c. c \<noteq> sep) s"
proof (induction s sep rule: Split.induct)
  case (1 s sep)
  show ?case
  proof (cases "Index s sep")
    case None
    have "Index t sep = None \<Longrightarrow> sep \<notin> set t" for t
      by (induction t) (auto split: if_splits option.splits)
    from this [OF None] have "filter (\<lambda>c. c \<noteq> sep) s = s"
      by (auto simp: filter_id_conv)
    with None show ?thesis by (subst Split.simps) simp
  next
    case (Some i)
    have split: "Index t sep = Some j \<Longrightarrow>
      sep \<notin> set (take j t) \<and> j < length t \<and> t ! j = sep" for t j
      by (induction t arbitrary: j) (auto split: if_splits option.splits)
    from split [OF Some] have i: "sep \<notin> set (take i s)" "i < length s" "s ! i = sep"
      by auto
    have "s = take i s @ s ! i # drop (Suc i) s"
      using i(2) by (simp add: id_take_nth_drop [symmetric])
    then have "filter (\<lambda>c. c \<noteq> sep) s =
      filter (\<lambda>c. c \<noteq> sep) (take i s) @ filter (\<lambda>c. c \<noteq> sep) (s ! i # drop (Suc i) s)"
      by (metis filter_append)
    also have "\<dots> = take i s @ filter (\<lambda>c. c \<noteq> sep) (drop (Suc i) s)"
      using i(1,3) by (auto simp: filter_id_conv)
    finally show ?thesis
      using Some "1.IH" [OF Some] by (subst Split.simps) simp
  qed
qed

lemma Split_no_sep: "t \<in> set (Split s sep) \<Longrightarrow> sep \<notin> set t"
proof (induction s sep rule: Split.induct)
  case (1 s sep)
  have none: "Index u sep = None \<Longrightarrow> sep \<notin> set u" for u
    by (induction u) (auto split: if_splits option.splits)
  have some: "Index u sep = Some j \<Longrightarrow> sep \<notin> set (take j u)" for u j
    by (induction u arbitrary: j) (auto split: if_splits option.splits)
  from "1.prems" have "t \<in> set (case Index s sep of None \<Rightarrow> [s]
      | Some i \<Rightarrow> take i s # Split (drop (Suc i) s) sep)"
    by (subst (asm) Split.simps) simp
  then show ?case
    using none [of s] some [of s] "1.IH" by (auto split: option.splits)
qed

lemma flattenRow_single:
  "flattenRow [h] [v] = buildNestedDict Map.empty h v"
  by (simp add: flattenRow_def split: sum.splits)

lemma Split_empty: "Split [] sep = [[]]"
  by (simp add: Split.simps)

subsection \<open>The heap refines the trees\<close>

lemma repr_bound: "repr h F rv v \<Longrightarrow> F \<subseteq> {..<length h}"
proof (induction rule: repr.induct)
  case (repr_map a d Fk)
  have "Fk k \<subseteq> {..<length h}" for k
    using repr_map.IH [of k] by auto
  with repr_map.hyps(1) show ?case by auto
qed simp_all

lemma repr_frame:
  assumes "repr h F rv v" and "length h \<le> length h'"
    and "\<And>a. a \<in> F \<Longrightarrow> h' ! a = h ! a"
  shows "repr h' F rv v"
  using assms
proof (induction rule: repr.induct)
  case (repr_string s)
  show ?case by (rule repr.repr_string)
next
  case (repr_strings l)
  show ?case by (rule repr.repr_strings)
next
  case (repr_map a d Fk)
  show ?case
  proof (rule repr.repr_map)
    from repr_map.hyps(1) repr_map.prems(1) show "a < length h'" by simp
    have a: "h' ! a = h ! a" by (rule repr_map.prems(2)) simp
    show "(h' ! a) k = None \<and> d k = None \<and> Fk k = {} \<or>
          (\<exists>rv v. (h' ! a) k = Some rv \<and> d k = Some v \<and> repr h' (Fk k) rv v)" for k
    proof -
      have sub: "h' ! x = h ! x" if "x \<in> Fk k" for x
        using that by (intro repr_map.prems(2)) auto
      from repr_map.IH [of k] show ?thesis
      proof
        assume "(h ! a) k = None \<and> d k = None \<and> Fk k = {}"
        then show ?thesis by (simp add: a)
      next
        assume "\<exists>rv v. (h ! a) k = Some rv \<and> d k = Some v \<and> repr h (Fk k) rv v \<and>
          (length h \<le> length h' \<longrightarrow> (\<forall>x. x \<in> Fk k \<longrightarrow> h' ! x = h ! x) \<longrightarrow> repr h' (Fk k) rv v)"
        with sub repr_map.prems(1) show ?thesis by (auto simp: a)
      qed
    qed
    show "a \<notin> Fk k" for k by (rule repr_map.hyps(2))
    show "Fk k \<inter> Fk k' = {}" if "k \<noteq> k'" for k k' using that by (rule repr_map.hyps(3))
  qed
qed

lemma repr_mapE:
  assumes "repr h F (RMap a) v"
  obtains d Fk where "v = VMap d" and "F = insert a (\<Union>k. Fk k)" and "a < length h"
    and "\<And>k. (h ! a) k = None \<and> d k = None \<and> Fk k = {} \<or>
          (\<exists>rv v. (h ! a) k = Some rv \<and> d k = Some v \<and> repr h (Fk k) rv v)"
    and "\<And>k. a \<notin> Fk k" and "\<And>k k'. k \<noteq> k' \<Longrightarrow> Fk k \<inter> Fk k' = {}"
  using assms
proof cases
  case (repr_map d Fk)
  show thesis
    by (rule that [of d Fk]) (use repr_map in \<open>simp_all\<close>)
qed

lemma repr_unique:
  "repr h F rv v \<Longrightarrow> repr h F' rv v' \<Longrightarrow> v = v'"
proof (induction arbitrary: F' v' rule: repr.induct)
  case (repr_string s)
  then show ?case by cases auto
next
  case (repr_strings l)
  then show ?case by cases auto
next
  case (repr_map a d Fk)
  from repr_map.prems show ?case
  proof (rule repr_mapE)
    fix d2 Fk2
    assume v': "v' = VMap d2"
      and e2: "\<And>k. (h ! a) k = None \<and> d2 k = None \<and> Fk2 k = {} \<or>
          (\<exists>rv v. (h ! a) k = Some rv \<and> d2 k = Some v \<and> repr h (Fk2 k) rv v)"
    have "d k = d2 k" for k
    proof (cases "(h ! a) k")
      case None
      with repr_map.IH [of k] e2 [of k] show ?thesis by simp
    next
      case (Some rv)
      with repr_map.IH [of k] obtain v1 where
        v1: "d k = Some v1" "\<And>F' v'. repr h F' rv v' \<Longrightarrow> v1 = v'"
        by auto
      from Some e2 [of k] obtain v2 where v2: "d2 k = Some v2" "repr h (Fk2 k) rv v2"
        by auto
      from v1(2) [OF v2(2)] v1(1) v2(1) show ?thesis by simp
    qed
    then have "d = d2" by (rule ext)
    with v' show "VMap d = v'" by simp
  qed
qed

text \<open>Putting a value under one key of a record that is represented.\<close>

lemma repr_put:
  assumes cur: "cur < length h"
    and entries: "\<And>k. (h ! cur) k = None \<and> d k = None \<and> Fk k = {} \<or>
          (\<exists>rv v. (h ! cur) k = Some rv \<and> d k = Some v \<and> repr h (Fk k) rv v)"
    and notin: "\<And>k. cur \<notin> Fk k"
    and disj: "\<And>k k'. k \<noteq> k' \<Longrightarrow> Fk k \<inter> Fk k' = {}"
    and len: "length h \<le> length h'"
    and new: "(h' ! cur) part = Some rv'"
    and old: "\<And>k. k \<noteq> part \<Longrightarrow> (h' ! cur) k = (h ! cur) k"
    and child: "repr h' G rv' v'"
    and G: "cur \<notin> G" "\<And>k. k \<noteq> part \<Longrightarrow> G \<inter> Fk k = {}"
    and untouched: "\<And>k x. k \<noteq> part \<Longrightarrow> x \<in> Fk k \<Longrightarrow> h' ! x = h ! x"
  shows "\<exists>F'. repr h' F' (RMap cur) (VMap (d(part \<mapsto> v'))) \<and>
    F' \<subseteq> insert cur (G \<union> (\<Union>k. Fk k))"
proof -
  define Fk' where "Fk' = Fk(part := G)"
  have same [simp]: "Fk' part = G" and other [simp]: "\<And>k. k \<noteq> part \<Longrightarrow> Fk' k = Fk k"
    by (simp_all add: Fk'_def)
  have "repr h' (insert cur (\<Union>k. Fk' k)) (RMap cur) (VMap (d(part \<mapsto> v')))"
  proof (rule repr.repr_map)
    from cur len show "cur < length h'" by simp
    show "(h' ! cur) k = None \<and> (d(part \<mapsto> v')) k = None \<and> Fk' k = {} \<or>
          (\<exists>rv v. (h' ! cur) k = Some rv \<and> (d(part \<mapsto> v')) k = Some v \<and> repr h' (Fk' k) rv v)" for k
    proof (cases "k = part")
      case True
      with new child show ?thesis by simp
    next
      case False
      from entries [of k] show ?thesis
      proof
        assume "(h ! cur) k = None \<and> d k = None \<and> Fk k = {}"
        with False old [of k] show ?thesis by simp
      next
        assume "\<exists>rv v. (h ! cur) k = Some rv \<and> d k = Some v \<and> repr h (Fk k) rv v"
        then obtain rv v where e: "(h ! cur) k = Some rv" "d k = Some v" "repr h (Fk k) rv v"
          by blast
        from e(3) len have "repr h' (Fk k) rv v"
          by (rule repr_frame) (rule untouched [OF False])
        with e(1,2) False old [of k] show ?thesis by simp
      qed
    qed
    show "cur \<notin> Fk' k" for k
      using notin [of k] G(1) by (cases "k = part") simp_all
    show "Fk' k \<inter> Fk' k' = {}" if "k \<noteq> k'" for k k'
    proof (cases "k = part")
      case True
      with that G(2) [of k'] show ?thesis by simp
    next
      case False
      show ?thesis
      proof (cases "k' = part")
        case True
        with False G(2) [of k] show ?thesis by auto
      next
        case False
        with \<open>k \<noteq> part\<close> disj [OF that] show ?thesis by simp
      qed
    qed
  qed
  moreover have "Fk' k \<subseteq> G \<union> (\<Union>k. Fk k)" for k
    by (cases "k = part") auto
  then have "insert cur (\<Union>k. Fk' k) \<subseteq> insert cur (G \<union> (\<Union>k. Fk k))"
    by blast
  ultimately show ?thesis by blast
qed

lemma walk_ref_alloc:
  assumes "(h ! cur) part = None" and "cur < length h"
  shows "walk_ref h cur (part # r # rs) v =
    walk_ref ((h @ [Map.empty])[cur := (h ! cur)(part \<mapsto> RMap (length h))]) (length h) (r # rs) v"
  using assms by (simp add: make_def Let_def nth_append)

lemma walk_ref_child:
  assumes "(h ! cur) part = Some (RMap a)"
  shows "walk_ref h cur (part # r # rs) v = walk_ref h a (r # rs) v"
  using assms by (simp add: Let_def)

lemma walk_ref_leaf:
  assumes "(h ! cur) part = Some rv" and "\<forall>a. rv \<noteq> RMap a"
  shows "walk_ref h cur (part # r # rs) v = Inl TypeAssertion"
  using assms by (cases rv) (auto simp: Let_def)

lemma entries_bound:
  assumes "(h ! cur) k = None \<and> d k = None \<and> Fk k = {} \<or>
          (\<exists>rv v. (h ! cur) k = Some rv \<and> d k = Some v \<and> repr h (Fk k) rv v)"
  shows "Fk k \<subseteq> {..<length h}"
  using assms by (auto dest: repr_bound)

lemma walk_ref_refines:
  assumes "repr h F (RMap cur) (VMap d)"
  shows "refines_at h F cur (walk d p v) (walk_ref h cur p v)"
  using assms
proof (induction p arbitrary: h F cur d)
  case Nil
  then show ?case by (auto simp: refines_at_def)
next
  case (Cons part rest)
  from Cons.prems show ?case
  proof (rule repr_mapE)
    fix d0 Fk
    assume "VMap d = VMap d0"
      and F: "F = insert cur (\<Union>k. Fk k)" and cur: "cur < length h"
      and entries0: "\<And>k. (h ! cur) k = None \<and> d0 k = None \<and> Fk k = {} \<or>
          (\<exists>rv v. (h ! cur) k = Some rv \<and> d0 k = Some v \<and> repr h (Fk k) rv v)"
      and notin: "\<And>k. cur \<notin> Fk k"
      and disj: "\<And>k k'. k \<noteq> k' \<Longrightarrow> Fk k \<inter> Fk k' = {}"
    then have entries: "\<And>k. (h ! cur) k = None \<and> d k = None \<and> Fk k = {} \<or>
          (\<exists>rv v. (h ! cur) k = Some rv \<and> d k = Some v \<and> repr h (Fk k) rv v)"
      by simp
    have bound: "Fk k \<subseteq> {..<length h}" for k
      using entries [of k] by (rule entries_bound)
    show ?thesis
    proof (cases rest)
      case Nil
      show ?thesis
      proof (cases "v = []")
        case True
        with Nil Cons.prems show ?thesis by (auto simp: refines_at_def)
      next
        case False
        let ?h' = "h[cur := (h ! cur)(part \<mapsto> RString v)]"
        have "\<exists>F'. repr ?h' F' (RMap cur) (VMap (d(part \<mapsto> VString v))) \<and>
            F' \<subseteq> insert cur ({} \<union> (\<Union>k. Fk k))"
        proof (rule repr_put [OF cur entries notin disj])
          show "length h \<le> length ?h'" by simp
          from cur show "(?h' ! cur) part = Some (RString v)" by simp
          from cur show "(?h' ! cur) k = (h ! cur) k" if "k \<noteq> part" for k
            using that by simp
          show "repr ?h' {} (RString v) (VString v)" by (rule repr.repr_string)
          show "?h' ! x = h ! x" if "x \<in> Fk k" for k x
            using that notin [of k] by (cases "x = cur") simp_all
        qed simp_all
        then obtain F' where "repr ?h' F' (RMap cur) (VMap (d(part \<mapsto> VString v)))"
          and "F' \<subseteq> F" unfolding F by auto
        moreover have "\<forall>x<length h. x \<notin> F \<longrightarrow> ?h' ! x = h ! x"
          unfolding F by auto
        ultimately show ?thesis
          using False Nil by (auto simp: refines_at_def)
      qed
    next
      case rest: (Cons r rs)
      show ?thesis
      proof (cases "(h ! cur) part")
        case None
        with entries [of part] have dp: "d part = None" and Fp: "Fk part = {}"
          by auto
        let ?a = "length h"
        let ?h1 = "(h @ [Map.empty])[cur := (h ! cur)(part \<mapsto> RMap ?a)]"
        have len1: "length ?h1 = Suc (length h)" by simp
        have h1a: "?h1 ! ?a = Map.empty"
          using cur by simp
        have h1cur: "?h1 ! cur = (h ! cur)(part \<mapsto> RMap ?a)"
          using cur by simp
        have h1x: "?h1 ! x = h ! x" if "x < length h" "x \<noteq> cur" for x
          using that by (simp add: nth_append)
        have "repr ?h1 (insert ?a (\<Union>k. (\<lambda>_::string. {}) k)) (RMap ?a) (VMap Map.empty)"
        proof (rule repr.repr_map)
          show "?a < length ?h1" by simp
          show "(?h1 ! ?a) k = None \<and> Map.empty k = None \<and> {} = {} \<or>
            (\<exists>rv v. (?h1 ! ?a) k = Some rv \<and> Map.empty k = Some v \<and> repr ?h1 {} rv v)" for k
            unfolding h1a by simp
        qed simp_all
        then have "repr ?h1 {?a} (RMap ?a) (VMap Map.empty)" by simp
        from Cons.IH [OF this] have
          ih: "refines_at ?h1 {?a} ?a (walk Map.empty rest v) (walk_ref ?h1 ?a rest v)" .
        have tr: "walk d (part # rest) v =
          (case walk Map.empty rest v of Inl e \<Rightarrow> Inl e
           | Inr sub' \<Rightarrow> Inr (d(part \<mapsto> VMap sub')))"
          unfolding rest using dp by (simp add: walk_enter enter_def del: walk.simps)
        have hr: "walk_ref h cur (part # rest) v = walk_ref ?h1 ?a rest v"
          unfolding rest using None cur by (rule walk_ref_alloc)
        show ?thesis
        proof (cases "walk Map.empty rest v")
          case (Inl e)
          with ih tr hr show ?thesis by (simp add: refines_at_def)
        next
          case (Inr sub')
          with ih obtain h' Fa' where
            run: "walk_ref ?h1 ?a rest v = Inr h'"
            and child: "repr h' Fa' (RMap ?a) (VMap sub')"
            and Fa': "Fa' \<subseteq> {?a} \<union> {length ?h1..<length h'}"
            and len': "length ?h1 \<le> length h'"
            and same: "\<And>x. x < length ?h1 \<Longrightarrow> x \<noteq> ?a \<Longrightarrow> h' ! x = ?h1 ! x"
            by (auto simp: refines_at_def simp del: length_list_update length_append nth_list_update)
          from len' have len: "length h \<le> length h'" by simp
          have h'cur: "h' ! cur = (h ! cur)(part \<mapsto> RMap ?a)"
            using same [of cur] cur h1cur by simp
          have h'x: "h' ! x = h ! x" if "x < length h" "x \<noteq> cur" for x
            using same [of x] h1x [OF that] that by simp
          have "\<exists>F'. repr h' F' (RMap cur) (VMap (d(part \<mapsto> VMap sub'))) \<and>
              F' \<subseteq> insert cur (Fa' \<union> (\<Union>k. Fk k))"
          proof (rule repr_put [OF cur entries notin disj len])
            show "(h' ! cur) part = Some (RMap ?a)" by (simp add: h'cur)
            show "(h' ! cur) k = (h ! cur) k" if "k \<noteq> part" for k
              using that by (simp add: h'cur)
            show "repr h' Fa' (RMap ?a) (VMap sub')" by (rule child)
            from Fa' cur show "cur \<notin> Fa'" by auto
            show "Fa' \<inter> Fk k = {}" for k
            proof -
              have "length h \<le> x" if "x \<in> Fa'" for x
                using Fa' that by auto
              moreover have "x < length h" if "x \<in> Fk k" for x
                using bound [of k] that by auto
              ultimately show ?thesis by fastforce
            qed
            show "h' ! x = h ! x" if "x \<in> Fk k" for k x
              using that bound [of k] notin [of k] by (intro h'x) auto
          qed
          then obtain F' where "repr h' F' (RMap cur) (VMap (d(part \<mapsto> VMap sub')))"
            and "F' \<subseteq> insert cur (Fa' \<union> (\<Union>k. Fk k))" by blast
          moreover have "F' \<subseteq> F \<union> {length h..<length h'}"
          proof
            fix x assume "x \<in> F'"
            with \<open>F' \<subseteq> insert cur (Fa' \<union> (\<Union>k. Fk k))\<close>
            have "x = cur \<or> x \<in> Fa' \<or> (\<exists>k. x \<in> Fk k)" by auto
            moreover have "length h \<le> y \<and> y < length h'" if "y \<in> Fa'" for y
              using Fa' repr_bound [OF child] that by auto
            ultimately show "x \<in> F \<union> {length h..<length h'}"
              unfolding F by auto
          qed
          moreover have "\<forall>x<length h. x \<notin> F \<longrightarrow> h' ! x = h ! x"
            unfolding F using h'x by auto
          ultimately show ?thesis
            using Inr tr hr run len by (auto simp: refines_at_def)
        qed
      next
        case (Some rv)
        with entries [of part] obtain v0 where
          dp: "d part = Some v0" and r0: "repr h (Fk part) rv v0"
          by auto
        show ?thesis
        proof (cases rv)
          case (RString s)
          with r0 have "v0 = VString s" by cases auto
          with dp have "walk d (part # rest) v = Inl TypeAssertion"
            unfolding rest by (simp add: walk_enter enter_def del: walk.simps)
          moreover from Some RString have "walk_ref h cur (part # rest) v = Inl TypeAssertion"
            unfolding rest by (intro walk_ref_leaf) auto
          ultimately show ?thesis by (simp add: refines_at_def)
        next
          case (RStrings l)
          with r0 have "v0 = VStrings l" by cases auto
          with dp have "walk d (part # rest) v = Inl TypeAssertion"
            unfolding rest by (simp add: walk_enter enter_def del: walk.simps)
          moreover from Some RStrings have "walk_ref h cur (part # rest) v = Inl TypeAssertion"
            unfolding rest by (intro walk_ref_leaf) auto
          ultimately show ?thesis by (simp add: refines_at_def)
        next
          case (RMap a)
          with r0 obtain sub where v0: "v0 = VMap sub" by cases auto
          with r0 RMap have rsub: "repr h (Fk part) (RMap a) (VMap sub)" by simp
          from Cons.IH [OF this] have
            ih: "refines_at h (Fk part) a (walk sub rest v) (walk_ref h a rest v)" .
          have tr: "walk d (part # rest) v =
            (case walk sub rest v of Inl e \<Rightarrow> Inl e
             | Inr sub' \<Rightarrow> Inr (d(part \<mapsto> VMap sub')))"
            unfolding rest using dp v0 by (simp add: walk_enter enter_def del: walk.simps)
          have hr: "walk_ref h cur (part # rest) v = walk_ref h a rest v"
            unfolding rest using Some RMap by (intro walk_ref_child) simp
          show ?thesis
          proof (cases "walk sub rest v")
            case (Inl e)
            with ih tr hr show ?thesis by (simp add: refines_at_def)
          next
            case (Inr sub')
            with ih obtain h' Fa' where
              run: "walk_ref h a rest v = Inr h'"
              and child: "repr h' Fa' (RMap a) (VMap sub')"
              and Fa': "Fa' \<subseteq> Fk part \<union> {length h..<length h'}"
              and len: "length h \<le> length h'"
              and same: "\<And>x. x < length h \<Longrightarrow> x \<notin> Fk part \<Longrightarrow> h' ! x = h ! x"
              by (auto simp: refines_at_def)
            have h'cur: "h' ! cur = h ! cur"
              using same [of cur] cur notin [of part] by simp
            have "\<exists>F'. repr h' F' (RMap cur) (VMap (d(part \<mapsto> VMap sub'))) \<and>
                F' \<subseteq> insert cur (Fa' \<union> (\<Union>k. Fk k))"
            proof (rule repr_put [OF cur entries notin disj len])
              show "(h' ! cur) part = Some (RMap a)" by (simp add: h'cur Some RMap)
              show "(h' ! cur) k = (h ! cur) k" for k by (simp add: h'cur)
              show "repr h' Fa' (RMap a) (VMap sub')" by (rule child)
              from Fa' cur notin [of part] show "cur \<notin> Fa'" by auto
              show "Fa' \<inter> Fk k = {}" if "k \<noteq> part" for k
              proof -
                have "x \<in> Fk part \<or> length h \<le> x" if "x \<in> Fa'" for x
                  using Fa' that by auto
                moreover have "x < length h \<and> x \<notin> Fk part" if "x \<in> Fk k" for x
                  using bound [of k] disj [OF \<open>k \<noteq> part\<close>] that by auto
                ultimately show ?thesis by fastforce
              qed
              show "h' ! x = h ! x" if "k \<noteq> part" "x \<in> Fk k" for k x
              proof (rule same)
                from that bound [of k] show "x < length h" by auto
                from that disj [OF that(1)] show "x \<notin> Fk part" by auto
              qed
            qed
            then obtain F' where "repr h' F' (RMap cur) (VMap (d(part \<mapsto> VMap sub')))"
              and "F' \<subseteq> insert cur (Fa' \<union> (\<Union>k. Fk k))" by blast
            moreover have "F' \<subseteq> F \<union> {length h..<length h'}"
            proof
              fix x assume "x \<in> F'"
              with \<open>F' \<subseteq> insert cur (Fa' \<union> (\<Union>k. Fk k))\<close>
              have "x = cur \<or> x \<in> Fa' \<or> (\<exists>k. x \<in> Fk k)" by auto
              moreover have "y \<in> Fk part \<or> length h \<le> y \<and> y < length h'" if "y \<in> Fa'" for y
                using Fa' that by auto
              ultimately show "x \<in> F \<union> {length h..<length h'}"
                unfolding F by auto
            qed
            moreover have "\<forall>x<length h. x \<notin> F \<longrightarrow> h' ! x = h ! x"
              unfolding F using same by auto
            ultimately show ?thesis
              using Inr tr hr run len by (auto simp: refines_at_def)
          qed
        qed
      qed
    qed
  qed
qed

text \<open>Storing a string or a list under a key of the record itself.\<close>

lemma put_leaf_refines:
  assumes r: "repr h F (RMap cur) (VMap d)"
    and leaf: "\<And>h'. repr h' {} rv v"
  shows "refines_at h F cur (Inr (d(k \<mapsto> v))) (Inr (h[cur := (h ! cur)(k \<mapsto> rv)]))"
  using r
proof (rule repr_mapE)
  fix d0 Fk
  assume "VMap d = VMap d0"
    and F: "F = insert cur (\<Union>k. Fk k)" and cur: "cur < length h"
    and entries0: "\<And>k. (h ! cur) k = None \<and> d0 k = None \<and> Fk k = {} \<or>
        (\<exists>rv v. (h ! cur) k = Some rv \<and> d0 k = Some v \<and> repr h (Fk k) rv v)"
    and notin: "\<And>k. cur \<notin> Fk k"
    and disj: "\<And>k k'. k \<noteq> k' \<Longrightarrow> Fk k \<inter> Fk k' = {}"
  then have entries: "\<And>k. (h ! cur) k = None \<and> d k = None \<and> Fk k = {} \<or>
        (\<exists>rv v. (h ! cur) k = Some rv \<and> d k = Some v \<and> repr h (Fk k) rv v)"
    by simp
  let ?h' = "h[cur := (h ! cur)(k \<mapsto> rv)]"
  have "\<exists>F'. repr ?h' F' (RMap cur) (VMap (d(k \<mapsto> v))) \<and>
      F' \<subseteq> insert cur ({} \<union> (\<Union>k. Fk k))"
  proof (rule repr_put [OF cur entries notin disj])
    show "length h \<le> length ?h'" by simp
    from cur show "(?h' ! cur) k = Some rv" by simp
    from cur show "(?h' ! cur) k' = (h ! cur) k'" if "k' \<noteq> k" for k'
      using that by simp
    show "repr ?h' {} rv v" by (rule leaf)
    show "?h' ! x = h ! x" if "x \<in> Fk k'" for k' x
      using that notin [of k'] by (cases "x = cur") simp_all
  qed simp_all
  then obtain F' where "repr ?h' F' (RMap cur) (VMap (d(k \<mapsto> v)))"
    and "F' \<subseteq> F" unfolding F by auto
  moreover have "\<forall>x<length h. x \<notin> F \<longrightarrow> ?h' ! x = h ! x"
    unfolding F by auto
  ultimately show ?thesis
    by (auto simp: refines_at_def)
qed

lemma buildNestedDict_ref_refines:
  assumes "repr h F (RMap cur) (VMap d)"
  shows "refines_at h F cur (buildNestedDict d path v) (buildNestedDict_ref h cur path v)"
proof (cases "reserved path")
  case True
  have "refines_at h F cur (Inr (d(path \<mapsto> VStrings (Split v CHR '',''))))
     (Inr (h[cur := (h ! cur)(path \<mapsto> RStrings (Split v CHR '',''))]))"
    using assms by (rule put_leaf_refines) (rule repr.repr_strings)
  with True show ?thesis
    by (simp add: buildNestedDict_def buildNestedDict_ref_def reserved_def)
next
  case False
  with walk_ref_refines [OF assms, of "parts path" v] show ?thesis
    by (simp add: buildNestedDict_def buildNestedDict_ref_def reserved_def parts_def)
qed

text \<open>Two steps in a row.\<close>

lemma refines_at_step:
  assumes first: "refines_at h F cur (Inr d1) (Inr h1)"
    and rest: "\<And>F1. repr h1 F1 (RMap cur) (VMap d1) \<Longrightarrow> refines_at h1 F1 cur tr hr"
  shows "refines_at h F cur tr hr"
proof -
  from first obtain F1 where
    r1: "repr h1 F1 (RMap cur) (VMap d1)"
    and F1: "F1 \<subseteq> F \<union> {length h..<length h1}"
    and len1: "length h \<le> length h1"
    and same1: "\<And>x. x < length h \<Longrightarrow> x \<notin> F \<Longrightarrow> h1 ! x = h ! x"
    by (auto simp: refines_at_def)
  note r = rest [OF r1]
  show ?thesis
  proof (cases tr)
    case (Inl e)
    with r show ?thesis by (simp add: refines_at_def)
  next
    case (Inr d')
    with r obtain h' F' where
      hr: "hr = Inr h'" and r': "repr h' F' (RMap cur) (VMap d')"
      and F': "F' \<subseteq> F1 \<union> {length h1..<length h'}"
      and len': "length h1 \<le> length h'"
      and same': "\<And>x. x < length h1 \<Longrightarrow> x \<notin> F1 \<Longrightarrow> h' ! x = h1 ! x"
      by (auto simp: refines_at_def)
    have "F' \<subseteq> F \<union> {length h..<length h'}"
    proof
      fix x assume "x \<in> F'"
      with F' have "x \<in> F1 \<or> length h1 \<le> x \<and> x < length h'" by auto
      moreover have "y \<in> F \<or> length h \<le> y \<and> y < length h1" if "y \<in> F1" for y
        using F1 that by auto
      ultimately have "x \<in> F \<or> length h \<le> x \<and> x < length h'"
        using len1 len' by (metis le_trans less_le_trans)
      then show "x \<in> F \<union> {length h..<length h'}"
        by auto
    qed
    moreover have "h' ! x = h ! x" if "x < length h" "x \<notin> F" for x
    proof -
      from that F1 have "x \<notin> F1" by auto
      moreover from that len1 have "x < length h1" by simp
      ultimately have "h' ! x = h1 ! x" by (intro same')
      with same1 [OF that] show ?thesis by simp
    qed
    ultimately show ?thesis
      using Inr hr r' len1 len' by (auto simp: refines_at_def)
  qed
qed

lemma rowLoop_ref_refines:
  assumes "repr h F (RMap cur) (VMap d)"
  shows "refines_at h F cur (rowLoop d hs i row) (rowLoop_ref h cur hs i row)"
  using assms
proof (induction row arbitrary: h F d i)
  case Nil
  then show ?case by (auto simp: refines_at_def)
next
  case (Cons v row)
  show ?case
  proof (cases "i < length hs")
    case False
    then show ?thesis by (simp add: refines_at_def)
  next
    case True
    note b = buildNestedDict_ref_refines [OF Cons.prems, of "hs ! i" v]
    show ?thesis
    proof (cases "buildNestedDict d (hs ! i) v")
      case (Inl e)
      with b True show ?thesis by (simp add: refines_at_def)
    next
      case (Inr d1)
      with b obtain h1 where h1: "buildNestedDict_ref h cur (hs ! i) v = Inr h1"
        by (auto simp: refines_at_def)
      from b have "refines_at h F cur (Inr d1) (Inr h1)"
        unfolding Inr h1 .
      then have "refines_at h F cur (rowLoop d1 hs (Suc i) row) (rowLoop_ref h1 cur hs (Suc i) row)"
        by (rule refines_at_step) (rule Cons.IH)
      with True Inr h1 show ?thesis by simp
    qed
  qed
qed

text \<open>
  A run on any heap: it panics as the tree-level function does, or it returns a fresh
  address whose record is the tree-level result, made of objects that did not exist
  before, and every object that did exist is as it was.
\<close>

lemma flattenRow_ref_refines:
  "case flattenRow hs vs of
     Inl e \<Rightarrow> flattenRow_ref h hs vs = Inl e
   | Inr d \<Rightarrow>
       (\<exists>h' F. flattenRow_ref h hs vs = Inr (h', length h) \<and>
          repr h' F (RMap (length h)) (VMap d) \<and>
          F \<subseteq> {length h..<length h'} \<and> length h < length h' \<and>
          (\<forall>x<length h. h' ! x = h ! x))"
proof -
  let ?a = "length h"
  let ?h0 = "h @ [Map.empty]"
  have "repr ?h0 (insert ?a (\<Union>k. (\<lambda>_::string. {}) k)) (RMap ?a) (VMap Map.empty)"
    by (rule repr.repr_map) simp_all
  then have "repr ?h0 {?a} (RMap ?a) (VMap Map.empty)" by simp
  then have r: "refines_at ?h0 {?a} ?a (rowLoop Map.empty hs 0 vs) (rowLoop_ref ?h0 ?a hs 0 vs)"
    by (rule rowLoop_ref_refines)
  show ?thesis
  proof (cases "flattenRow hs vs")
    case (Inl e)
    with r show ?thesis
      by (simp add: flattenRow_def flattenRow_ref_def make_def refines_at_def)
  next
    case (Inr d)
    with r obtain h' F where
      run: "rowLoop_ref ?h0 ?a hs 0 vs = Inr h'"
      and rep: "repr h' F (RMap ?a) (VMap d)"
      and F: "F \<subseteq> {?a} \<union> {length ?h0..<length h'}"
      and len: "length ?h0 \<le> length h'"
      and same: "\<And>x. x < length ?h0 \<Longrightarrow> x \<noteq> ?a \<Longrightarrow> h' ! x = ?h0 ! x"
      by (auto simp: flattenRow_def refines_at_def simp del: length_append)
    from run have "flattenRow_ref h hs vs = Inr (h', ?a)"
      by (simp add: flattenRow_ref_def make_def)
    moreover have "F \<subseteq> {?a..<length h'}"
    proof
      fix x assume "x \<in> F"
      with F have "?a \<le> x" by auto
      moreover from \<open>x \<in> F\<close> repr_bound [OF rep] have "x < length h'" by auto
      ultimately show "x \<in> {?a..<length h'}" by simp
    qed
    moreover from len have "?a < length h'" by simp
    moreover have "h' ! x = h ! x" if "x < ?a" for x
      using same [of x] that by (simp add: nth_append)
    ultimately show ?thesis
      using Inr rep by auto
  qed
qed

section \<open>The claims of the specification\<close>

subsection \<open>Empty cells under dotted headers\<close>

theorem empty_cell_intermediate_counterexample:
  "flattenRow [''a.b''] [''''] = Inr (Map.empty(''a'' \<mapsto> VMap Map.empty)) \<and>
   flattenRow [''a.b''] [''''] \<noteq> Inr Map.empty"
  by (simp add: flattenRow_def buildNestedDict_def Split.simps)

text \<open>
  Claim C1, as amended. The claim says that an empty cell under a dotted header leaves
  no key at all, so that headers \<open>["a.b"]\<close> with row \<open>[""]\<close> give the empty record.
  The loop creates the records above the last part before it looks at the value, so
  the result is \<open>{"a": {}}\<close> (the counterexample above). What holds: for a header that
  is not reserved, a call with the empty value leaves the binding at the header's path
  as it was and makes every part above it a record; flattening that single pair into a
  fresh payload returns, and nothing is bound at the path.
\<close>

theorem empty_cell_no_leaf:
  assumes "\<not> reserved path"
  shows "(\<forall>dict dict'. buildNestedDict dict path [] = Inr dict' \<longrightarrow>
            lookup_path dict' (parts path) = lookup_path dict (parts path) \<and>
            (\<forall>q. strict_prefix q (parts path) \<longrightarrow> (\<exists>m. lookup_path dict' q = Some (VMap m)))) \<and>
         (\<exists>d. flattenRow [path] [[]] = Inr d \<and> lookup_path d (parts path) = None)"
proof -
  have no_write: "\<not> writes_leaf path []"
    using assms by (simp add: writes_leaf_def)
  have one: "lookup_path dict' (parts path) = lookup_path dict (parts path) \<and>
      (\<forall>q. strict_prefix q (parts path) \<longrightarrow> (\<exists>m. lookup_path dict' q = Some (VMap m)))"
    if b: "buildNestedDict dict path [] = Inr dict'" for dict dict'
    using build_at_path [OF b] build_above [OF b] no_write by simp
  have "\<exists>d. buildNestedDict Map.empty path [] = Inr d"
    by (rule build_returns) simp
  then obtain d where d: "buildNestedDict Map.empty path [] = Inr d" ..
  with one [OF d] have "flattenRow [path] [[]] = Inr d \<and> lookup_path d (parts path) = None"
    by (simp add: flattenRow_single)
  with one show ?thesis by blast
qed

theorem empty_cell_no_leaf_witness:
  "\<not> reserved ''a.b'' \<and> parts ''a.b'' = [''a'', ''b''] \<and>
   flattenRow [''a.b''] [''''] = Inr (Map.empty(''a'' \<mapsto> VMap Map.empty)) \<and>
   lookup_path (Map.empty(''a'' \<mapsto> VMap Map.empty)) [''a'', ''b''] = None \<and>
   lookup_path (Map.empty(''a'' \<mapsto> VMap Map.empty)) [''a''] = Some (VMap Map.empty)"
proof -
  have r: "\<not> reserved ''a.b''" by (simp add: reserved_def)
  have p: "parts ''a.b'' = [''a'', ''b'']" by (simp add: parts_def Split.simps)
  have f: "flattenRow [''a.b''] [''''] = Inr (Map.empty(''a'' \<mapsto> VMap Map.empty))"
    by (simp add: flattenRow_def buildNestedDict_def Split.simps)
  from empty_cell_no_leaf [OF r] f p
  have "lookup_path (Map.empty(''a'' \<mapsto> VMap Map.empty)) [''a'', ''b''] = None"
    by auto
  moreover have "lookup_path (Map.empty(''a'' \<mapsto> VMap Map.empty)) [''a''] = Some (VMap Map.empty)"
    by (simp add: lookup_path_def)
  ultimately show ?thesis using r p f by simp
qed

subsection \<open>Empty cells under reserved headers\<close>

theorem reserved_empty_cell_counterexample:
  "buildNestedDict Map.empty ''payment_methods'' '''' \<noteq>
     Inr (Map.empty(''payment_methods'' \<mapsto> VStrings [])) \<and>
   buildNestedDict Map.empty ''transfer_methods'' '''' \<noteq>
     Inr (Map.empty(''transfer_methods'' \<mapsto> VStrings []))"
  by (auto simp: buildNestedDict_def Split.simps dest: map_upd_eqD1)

text \<open>
  Claim C2, as amended. The claim says that a reserved header with an empty cell stores
  the empty list. \<open>strings.Split("", ",")\<close> has one element, the empty string (the
  counterexample above), so for a reserved header and the empty value the call returns
  and binds the key, at the top level, to the one-element list \<open>[""]\<close>.
\<close>

theorem reserved_empty_cell:
  assumes "reserved path"
  shows "buildNestedDict dict path [] = Inr (dict(path \<mapsto> VStrings [[]]))"
  using assms by (simp add: buildNestedDict_reserved Split_empty)

theorem reserved_empty_cell_witness:
  "reserved ''payment_methods'' \<and>
   buildNestedDict Map.empty ''payment_methods'' '''' =
     Inr (Map.empty(''payment_methods'' \<mapsto> VStrings ['''']))"
proof -
  have r: "reserved ''payment_methods''" by (simp add: reserved_def)
  from reserved_empty_cell [OF r] r show ?thesis by simp
qed

subsection \<open>The empty transfer_methods cell\<close>

text \<open>
  Claim C3. For headers \<open>["transfer_methods"]\<close> and row \<open>[""]\<close> the result is
  \<open>{"transfer_methods": [""]}\<close>: splitting the empty value at \<open>","\<close> gives the
  one-element list that holds the empty string.
\<close>

theorem transfer_methods_empty_cell:
  "flattenRow [''transfer_methods''] [''''] =
     Inr (Map.empty(''transfer_methods'' \<mapsto> VStrings [''''])) \<and>
   Split '''' CHR '','' = ['''']"
  by (simp add: flattenRow_def buildNestedDict_def Split.simps)

subsection \<open>Reserved names inside dotted headers\<close>

theorem reserved_segment_counterexample:
  "flattenRow [''a.payment_methods''] [''x,y''] =
     Inr (Map.empty(''a'' \<mapsto> VMap (Map.empty(''payment_methods'' \<mapsto> VString ''x,y'')))) \<and>
   flattenRow [''a.payment_methods''] [''x,y''] \<noteq>
     Inr (Map.empty(''a'' \<mapsto> VMap (Map.empty(''payment_methods'' \<mapsto> VStrings [''x'', ''y''])))) \<and>
   flattenRow [''a.payment_methods''] [''x,y''] \<noteq>
     Inr (Map.empty(''payment_methods'' \<mapsto> VStrings [''x'', ''y'']))"
proof -
  have "Map.empty(''a'' \<mapsto> VMap (Map.empty(''payment_methods'' \<mapsto> VString ''x,y''))) \<noteq>
      Map.empty(''payment_methods'' \<mapsto> VStrings [''x'', ''y''])"
    by (auto dest: fun_cong [where x = "''a''"])
  then show ?thesis
    by (auto simp: flattenRow_def buildNestedDict_def Split.simps dest: map_upd_eqD1)
qed

text \<open>
  Claim C4, as amended. The claim says that a dotted header with \<open>payment_methods\<close> or
  \<open>transfer_methods\<close> among its parts is stored as a comma-split list. The code compares
  the whole header with the two names, so \<open>"a.payment_methods"\<close> with \<open>"x,y"\<close> gives
  \<open>{"a": {"payment_methods": "x,y"}}\<close> (the counterexample above). What holds: a header
  that has a reserved name among its parts without being that name is not reserved, the
  call is the plain walk along its parts, and a value that is not empty ends up unsplit,
  as one string, at the header's path; flattening that single pair returns.
\<close>

theorem reserved_segment_is_plain_path:
  assumes "reserved r" and "r \<in> set (parts path)" and "path \<noteq> r" and "val \<noteq> []"
  shows "\<not> reserved path \<and>
    buildNestedDict dict path val = walk dict (parts path) val \<and>
    (\<forall>dict'. buildNestedDict dict path val = Inr dict' \<longrightarrow>
       lookup_path dict' (parts path) = Some (VString val)) \<and>
    (\<exists>d. flattenRow [path] [val] = Inr d \<and> lookup_path d (parts path) = Some (VString val))"
proof -
  have nr: "\<not> reserved path"
  proof
    assume "reserved path"
    then have "parts path = [path]" by (rule parts_reserved)
    with assms(2,3) show False by simp
  qed
  then have w: "writes_leaf path val" "leaf_value path val = VString val"
    using assms(4) by (simp_all add: writes_leaf_def leaf_value_def)
  have at: "lookup_path dict' (parts path) = Some (VString val)"
    if b: "buildNestedDict dict path val = Inr dict'" for dict dict'
    using build_at_path [OF b] w by simp
  have "\<exists>d. buildNestedDict Map.empty path val = Inr d"
    by (rule build_returns) simp
  then obtain d where d: "buildNestedDict Map.empty path val = Inr d" ..
  with at [OF d] have "flattenRow [path] [val] = Inr d \<and>
      lookup_path d (parts path) = Some (VString val)"
    by (simp add: flattenRow_single)
  with nr at show ?thesis
    by (auto simp: buildNestedDict_walk)
qed

theorem reserved_segment_is_plain_path_witness:
  "reserved ''payment_methods'' \<and>
   ''payment_methods'' \<in> set (parts ''a.payment_methods'') \<and>
   ''a.payment_methods'' \<noteq> ''payment_methods'' \<and> ''x,y'' \<noteq> [] \<and>
   flattenRow [''a.payment_methods''] [''x,y''] =
     Inr (Map.empty(''a'' \<mapsto> VMap (Map.empty(''payment_methods'' \<mapsto> VString ''x,y'')))) \<and>
   lookup_path (Map.empty(''a'' \<mapsto> VMap (Map.empty(''payment_methods'' \<mapsto> VString ''x,y''))))
     [''a'', ''payment_methods''] = Some (VString ''x,y'')"
proof -
  have r: "reserved ''payment_methods''" by (simp add: reserved_def)
  have p: "parts ''a.payment_methods'' = [''a'', ''payment_methods'']"
    by (simp add: parts_def Split.simps)
  then have m: "''payment_methods'' \<in> set (parts ''a.payment_methods'')" by simp
  have n: "''a.payment_methods'' \<noteq> ''payment_methods''" by simp
  have v: "''x,y'' \<noteq> []" by simp
  have f: "flattenRow [''a.payment_methods''] [''x,y''] =
     Inr (Map.empty(''a'' \<mapsto> VMap (Map.empty(''payment_methods'' \<mapsto> VString ''x,y''))))"
    by (simp add: flattenRow_def buildNestedDict_def Split.simps)
  from reserved_segment_is_plain_path [OF r m n v, of Map.empty] f p
  have "lookup_path (Map.empty(''a'' \<mapsto> VMap (Map.empty(''payment_methods'' \<mapsto> VString ''x,y''))))
     [''a'', ''payment_methods''] = Some (VString ''x,y'')"
    by auto
  with r m n v f show ?thesis by simp
qed

subsection \<open>Reserved headers\<close>

text \<open>
  Claim C5. For a header that is \<open>payment_methods\<close> or \<open>transfer_methods\<close> and every
  value, the call returns and binds the key, at the top level of the record it was given,
  to the list \<open>Split val ","\<close>; no walk takes place. Nothing is trimmed: the pieces,
  put together, are the value without its commas, and no piece holds a comma. Headers
  \<open>["payment_methods"]\<close> with row \<open>["bank,card"]\<close> give
  \<open>{"payment_methods": ["bank", "card"]}\<close>.
\<close>

theorem reserved_header_split:
  assumes "reserved path"
  shows "buildNestedDict dict path val = Inr (dict(path \<mapsto> VStrings (Split val CHR '',''))) \<and>
    concat (Split val CHR '','') = filter (\<lambda>c. c \<noteq> CHR '','') val \<and>
    (\<forall>t \<in> set (Split val CHR '',''). CHR '','' \<notin> set t) \<and>
    flattenRow [path] [val] = Inr (Map.empty(path \<mapsto> VStrings (Split val CHR '',''))) \<and>
    flattenRow [''payment_methods''] [''bank,card''] =
      Inr (Map.empty(''payment_methods'' \<mapsto> VStrings [''bank'', ''card'']))"
proof -
  have "flattenRow [''payment_methods''] [''bank,card''] =
      Inr (Map.empty(''payment_methods'' \<mapsto> VStrings [''bank'', ''card'']))"
    by (simp add: flattenRow_def buildNestedDict_def Split.simps)
  with assms show ?thesis
    by (simp add: flattenRow_single buildNestedDict_reserved concat_Split Split_no_sep)
qed

theorem reserved_header_split_witness:
  "reserved ''transfer_methods'' \<and>
   buildNestedDict (Map.empty(''transfer_methods'' \<mapsto> VString ''old'')) ''transfer_methods'' '' a ,b,'' =
     Inr (Map.empty(''transfer_methods'' \<mapsto> VStrings ['' a '', ''b'', '''']))"
proof -
  have r: "reserved ''transfer_methods''" by (simp add: reserved_def)
  have s: "Split '' a ,b,'' CHR '','' = ['' a '', ''b'', '''']"
    by (simp add: Split.simps)
  from reserved_header_split [OF r, of "Map.empty(''transfer_methods'' \<mapsto> VString ''old'')" "'' a ,b,''"]
  show ?thesis using r s by simp
qed

subsection \<open>Duplicate headers\<close>

text \<open>
  Claim C6. Let a header occur at \<open>i\<close> and again at \<open>j > i\<close>, both with values that are
  not empty, and let \<open>j\<close> be the last pair that writes there: every later header is the
  same header with a value that writes nothing, or a path that is neither above nor
  below this one. Then the record that flattening returns holds the value of pair \<open>j\<close> at
  the path. The earlier value leaves no trace: a call that writes gives the same result
  after any earlier call at the same header as without it. Headers \<open>["a.b", "a.b"]\<close>
  with row \<open>["x", "y"]\<close> give \<open>{"a": {"b": "y"}}\<close>.
\<close>

theorem last_write_wins:
  assumes ret: "flattenRow hs vs = Inr d" and len: "length hs = length vs"
    and ij: "i < j" "j < length hs" and dup: "hs ! i = hs ! j"
    and vi: "vs ! i \<noteq> []" and vj: "vs ! j \<noteq> []"
    and later: "\<forall>k \<in> {Suc j..<length hs}.
      hs ! k = hs ! j \<and> \<not> writes_leaf (hs ! k) (vs ! k) \<or>
      \<not> prefix (parts (hs ! k)) (parts (hs ! j)) \<and> \<not> prefix (parts (hs ! j)) (parts (hs ! k))"
  shows "lookup_path d (parts (hs ! j)) = Some (leaf_value (hs ! j) (vs ! j)) \<and>
    (\<forall>dict v1 d1. buildNestedDict dict (hs ! j) v1 = Inr d1 \<longrightarrow>
       buildNestedDict d1 (hs ! j) (vs ! j) = buildNestedDict dict (hs ! j) (vs ! j)) \<and>
    flattenRow [''a.b'', ''a.b''] [''x'', ''y''] =
      Inr (Map.empty(''a'' \<mapsto> VMap (Map.empty(''b'' \<mapsto> VString ''y''))))"
proof -
  from vj have w: "writes_leaf (hs ! j) (vs ! j)"
    by (simp add: writes_leaf_def)
  from ret have run: "rowPrefix hs vs (length vs) = Inr d"
    by (simp add: rowPrefix_length)
  have "lookup_path d (parts (hs ! j)) = Some (leaf_value (hs ! j) (vs ! j))"
  proof (rule rowPrefix_last_write [OF ij(2) len w _ _ _ run])
    fix k
    assume "j < k" "k < length hs"
    with later show "hs ! k = hs ! j \<and> \<not> writes_leaf (hs ! k) (vs ! k) \<or>
      \<not> prefix (parts (hs ! k)) (parts (hs ! j)) \<and> \<not> prefix (parts (hs ! j)) (parts (hs ! k))"
      by simp
  next
    from ij(2) len show "j < length vs" by simp
  qed simp
  moreover have "buildNestedDict d1 (hs ! j) (vs ! j) = buildNestedDict dict (hs ! j) (vs ! j)"
    if "buildNestedDict dict (hs ! j) v1 = Inr d1" for dict v1 d1
    using that w by (rule build_twice)
  moreover have "flattenRow [''a.b'', ''a.b''] [''x'', ''y''] =
      Inr (Map.empty(''a'' \<mapsto> VMap (Map.empty(''b'' \<mapsto> VString ''y''))))"
    by (simp add: flattenRow_def buildNestedDict_def Split.simps)
  ultimately show ?thesis by blast
qed

theorem last_write_wins_witness:
  "flattenRow [''a.b'', ''c'', ''a.b'', ''a.b''] [''x'', ''z'', ''y'', ''''] =
     Inr (Map.empty(''c'' \<mapsto> VString ''z'', ''a'' \<mapsto> VMap (Map.empty(''b'' \<mapsto> VString ''y'')))) \<and>
   lookup_path (Map.empty(''c'' \<mapsto> VString ''z'', ''a'' \<mapsto> VMap (Map.empty(''b'' \<mapsto> VString ''y''))))
     [''a'', ''b''] = Some (VString ''y'')"
proof -
  let ?hs = "[''a.b'', ''c'', ''a.b'', ''a.b'']"
  let ?vs = "[''x'', ''z'', ''y'', '''']"
  let ?d = "Map.empty(''c'' \<mapsto> VString ''z'', ''a'' \<mapsto> VMap (Map.empty(''b'' \<mapsto> VString ''y'')))"
  have f: "flattenRow ?hs ?vs = Inr ?d"
    by (simp add: flattenRow_def buildNestedDict_def Split.simps)
  have p: "parts ''a.b'' = [''a'', ''b'']"
    by (simp add: parts_def Split.simps)
  have later: "\<forall>k \<in> {Suc 2..<length ?hs}.
      ?hs ! k = ?hs ! 2 \<and> \<not> writes_leaf (?hs ! k) (?vs ! k) \<or>
      \<not> prefix (parts (?hs ! k)) (parts (?hs ! 2)) \<and> \<not> prefix (parts (?hs ! 2)) (parts (?hs ! k))"
  proof
    fix k assume "k \<in> {Suc 2..<length ?hs}"
    then have "k = 3" by auto
    then show "?hs ! k = ?hs ! 2 \<and> \<not> writes_leaf (?hs ! k) (?vs ! k) \<or>
      \<not> prefix (parts (?hs ! k)) (parts (?hs ! 2)) \<and> \<not> prefix (parts (?hs ! 2)) (parts (?hs ! k))"
      by (simp add: writes_leaf_def reserved_def)
  qed
  have "lookup_path ?d (parts (?hs ! 2)) = Some (leaf_value (?hs ! 2) (?vs ! 2))"
    using last_write_wins [of ?hs ?vs ?d 0 2, OF f _ _ _ _ _ _ later] by simp
  then have "lookup_path ?d [''a'', ''b''] = Some (VString ''y'')"
    by (simp add: p leaf_value_def reserved_def)
  with f show ?thesis by simp
qed

subsection \<open>Leaves and records under collision-free headers\<close>

text \<open>
  Claim C7. For collision-free headers and a row of the same length, flattening returns a
  record in which the path of every header with a value that is not empty holds a leaf,
  every proper prefix of a header's path holds a nested record, and every leaf sits at
  the path of some header.
\<close>

theorem collision_free_leaves:
  assumes cf: "collision_free hs" and len: "length hs = length vs"
  shows "\<exists>d. flattenRow hs vs = Inr d \<and>
    (\<forall>k<length hs. vs ! k \<noteq> [] \<longrightarrow>
       (\<exists>x. lookup_path d (parts (hs ! k)) = Some x \<and> is_leaf x)) \<and>
    (\<forall>k<length hs. \<forall>q. strict_prefix q (parts (hs ! k)) \<longrightarrow>
       (\<exists>m. lookup_path d q = Some (VMap m))) \<and>
    (\<forall>q x. lookup_path d q = Some x \<longrightarrow> is_leaf x \<longrightarrow> q \<in> parts ` set hs)"
proof -
  from cf have "no_collision hs vs" by (rule collision_free_no_collision)
  from rowPrefix_no_collision [OF this len order_refl] obtain d where
    d: "rowPrefix hs vs (length vs) = Inr d"
    and leaves: "\<And>q x. lookup_path d q = Some x \<Longrightarrow> is_leaf x \<Longrightarrow>
      \<exists>k<length vs. writes_leaf (hs ! k) (vs ! k) \<and> q = parts (hs ! k)"
    by blast
  from rowPrefix_collision_free [OF cf len order_refl d] len have
    "\<forall>k<length hs. vs ! k \<noteq> [] \<longrightarrow>
       (\<exists>x. lookup_path d (parts (hs ! k)) = Some x \<and> is_leaf x)"
    and "\<forall>k<length hs. \<forall>q. strict_prefix q (parts (hs ! k)) \<longrightarrow>
       (\<exists>m. lookup_path d q = Some (VMap m))"
    by (simp_all add: writes_leaf_def)
  moreover have "q \<in> parts ` set hs" if "lookup_path d q = Some x" "is_leaf x" for q x
    using leaves [OF that] len by auto
  moreover from d have "flattenRow hs vs = Inr d"
    by (simp add: rowPrefix_length)
  ultimately show ?thesis by blast
qed

theorem collision_free_leaves_witness:
  "collision_free [''a.b'', ''a.c''] \<and>
   flattenRow [''a.b'', ''a.c''] [''x'', ''y''] =
     Inr (Map.empty(''a'' \<mapsto> VMap (Map.empty(''b'' \<mapsto> VString ''x'', ''c'' \<mapsto> VString ''y'')))) \<and>
   (\<exists>x. lookup_path (Map.empty(''a'' \<mapsto> VMap (Map.empty(''b'' \<mapsto> VString ''x'', ''c'' \<mapsto> VString ''y''))))
      [''a'', ''c''] = Some x \<and> is_leaf x) \<and>
   (\<exists>m. lookup_path (Map.empty(''a'' \<mapsto> VMap (Map.empty(''b'' \<mapsto> VString ''x'', ''c'' \<mapsto> VString ''y''))))
      [''a''] = Some (VMap m))"
proof -
  let ?hs = "[''a.b'', ''a.c'']"
  let ?vs = "[''x'', ''y'']"
  let ?d = "Map.empty(''a'' \<mapsto> VMap (Map.empty(''b'' \<mapsto> VString ''x'', ''c'' \<mapsto> VString ''y'')))"
  have pb: "parts ''a.b'' = [''a'', ''b'']" and pc: "parts ''a.c'' = [''a'', ''c'']"
    by (simp_all add: parts_def Split.simps)
  have cf: "collision_free ?hs"
    by (simp add: collision_free_def pb pc)
  have len: "length ?hs = length ?vs" by simp
  have f: "flattenRow ?hs ?vs = Inr ?d"
    by (simp add: flattenRow_def buildNestedDict_def Split.simps)
  from collision_free_leaves [OF cf len] f have
    leaf: "\<forall>k<length ?hs. ?vs ! k \<noteq> [] \<longrightarrow>
       (\<exists>x. lookup_path ?d (parts (?hs ! k)) = Some x \<and> is_leaf x)"
    and recd: "\<forall>k<length ?hs. \<forall>q. strict_prefix q (parts (?hs ! k)) \<longrightarrow>
       (\<exists>m. lookup_path ?d q = Some (VMap m))"
    by auto
  from leaf [rule_format, of 1] have "\<exists>x. lookup_path ?d (parts (?hs ! 1)) = Some x \<and> is_leaf x"
    by simp
  then have l: "\<exists>x. lookup_path ?d [''a'', ''c''] = Some x \<and> is_leaf x"
    by (simp add: pc)
  from recd [rule_format, of 1 "[''a'']"]
  have "strict_prefix [''a''] [''a'', ''c''] \<longrightarrow> (\<exists>m. lookup_path ?d [''a''] = Some (VMap m))"
    by (simp add: pc)
  then have r: "\<exists>m. lookup_path ?d [''a''] = Some (VMap m)"
    by simp
  from cf f l r show ?thesis by blast
qed

subsection \<open>No panic without collisions\<close>

text \<open>
  Claim C8. For headers and a row of the same length with no collision (no pair that
  writes a leaf is followed by a header whose path goes on below that leaf), flattening
  returns a record: neither the index into the headers nor a type assertion panics.
\<close>

theorem flattenRow_returns:
  assumes "length hs = length vs" and "no_collision hs vs"
  shows "\<exists>d. flattenRow hs vs = Inr d"
  using rowPrefix_no_collision [OF assms(2,1) order_refl]
  by (auto simp: rowPrefix_length)

theorem flattenRow_returns_witness:
  "length [''a.b'', ''a''] = length [''x'', ''y''] \<and>
   no_collision [''a.b'', ''a''] [''x'', ''y''] \<and>
   flattenRow [''a.b'', ''a''] [''x'', ''y''] = Inr (Map.empty(''a'' \<mapsto> VString ''y''))"
proof -
  let ?hs = "[''a.b'', ''a'']"
  let ?vs = "[''x'', ''y'']"
  have pb: "parts ''a.b'' = [''a'', ''b'']" and pa: "parts ''a'' = [''a'']"
    by (simp_all add: parts_def Split.simps)
  have len: "length ?hs = length ?vs" by simp
  have nc: "no_collision ?hs ?vs"
    by (simp add: no_collision_def pb pa atLeast0_lessThan_Suc)
  have f: "flattenRow ?hs ?vs = Inr (Map.empty(''a'' \<mapsto> VString ''y''))"
    by (simp add: flattenRow_def buildNestedDict_def Split.simps)
  from flattenRow_returns [OF len nc] len nc f show ?thesis by simp
qed

subsection \<open>Two runs on fresh records\<close>

text \<open>
  Claim C9. On the heap, where a record is an address and the code updates map objects
  in place: whether a run panics, and with which panic, does not depend on the heap it
  starts in. When flattening the same headers and row is run twice, the second run in
  the heap that the first one left, each run returns an address that did not exist
  before it; in the final heap both addresses hold the same tree, the value of the
  function \<open>flattenRow\<close> of the headers and the row alone, and no other tree; the two
  records share no object; and each run leaves every object that existed before it as
  it was.
\<close>

theorem flattening_is_pure:
  "(\<forall>h h' e. (flattenRow_ref h hs vs = Inl e) = (flattenRow_ref h' hs vs = Inl e)) \<and>
   (\<forall>h0 h1 h2 r1 r2.
      flattenRow_ref h0 hs vs = Inr (h1, r1) \<and> flattenRow_ref h1 hs vs = Inr (h2, r2) \<longrightarrow>
      (\<exists>d F1 F2.
         flattenRow hs vs = Inr d \<and>
         repr h2 F1 (RMap r1) (VMap d) \<and> repr h2 F2 (RMap r2) (VMap d) \<and>
         (\<forall>F v. repr h2 F (RMap r1) v \<longrightarrow> v = VMap d) \<and>
         (\<forall>F v. repr h2 F (RMap r2) v \<longrightarrow> v = VMap d) \<and>
         r1 = length h0 \<and> r2 = length h1 \<and>
         F1 \<subseteq> {length h0..<length h1} \<and> F2 \<subseteq> {length h1..<length h2} \<and> F1 \<inter> F2 = {} \<and>
         (\<forall>x<length h0. h1 ! x = h0 ! x) \<and> (\<forall>x<length h1. h2 ! x = h1 ! x)))"
proof (intro conjI allI impI)
  fix h h' :: heap and e
  show "(flattenRow_ref h hs vs = Inl e) = (flattenRow_ref h' hs vs = Inl e)"
    using flattenRow_ref_refines [where h = h and hs = hs and vs = vs] flattenRow_ref_refines [where h = h' and hs = hs and vs = vs]
    by (cases "flattenRow hs vs") auto
next
  fix h0 h1 h2 :: heap and r1 r2 :: addr
  assume runs: "flattenRow_ref h0 hs vs = Inr (h1, r1) \<and> flattenRow_ref h1 hs vs = Inr (h2, r2)"
  then obtain d where d: "flattenRow hs vs = Inr d"
    using flattenRow_ref_refines [where h = h0 and hs = hs and vs = vs] by (cases "flattenRow hs vs") auto
  from flattenRow_ref_refines [where h = h0 and hs = hs and vs = vs] d runs obtain F1 where
    r1: "r1 = length h0" and rep1: "repr h1 F1 (RMap r1) (VMap d)"
    and F1: "F1 \<subseteq> {length h0..<length h1}"
    and same1: "\<forall>x<length h0. h1 ! x = h0 ! x"
    by auto
  from flattenRow_ref_refines [where h = h1 and hs = hs and vs = vs] d runs obtain F2 where
    r2: "r2 = length h1" and rep2: "repr h2 F2 (RMap r2) (VMap d)"
    and F2: "F2 \<subseteq> {length h1..<length h2}" and len2: "length h1 < length h2"
    and same2: "\<forall>x<length h1. h2 ! x = h1 ! x"
    by auto
  have rep1': "repr h2 F1 (RMap r1) (VMap d)"
  proof (rule repr_frame [OF rep1])
    from len2 show "length h1 \<le> length h2" by simp
    show "h2 ! a = h1 ! a" if "a \<in> F1" for a
      using that F1 same2 by auto
  qed
  have "F1 \<inter> F2 = {}"
  proof -
    have "x < length h1" if "x \<in> F1" for x using F1 that by auto
    moreover have "length h1 \<le> x" if "x \<in> F2" for x using F2 that by auto
    ultimately show ?thesis by fastforce
  qed
  moreover have "v = VMap d" if "repr h2 F (RMap r1) v" for F v
    using rep1' that by (rule repr_unique [symmetric])
  moreover have "v = VMap d" if "repr h2 F (RMap r2) v" for F v
    using rep2 that by (rule repr_unique [symmetric])
  ultimately show "\<exists>d F1 F2.
         flattenRow hs vs = Inr d \<and>
         repr h2 F1 (RMap r1) (VMap d) \<and> repr h2 F2 (RMap r2) (VMap d) \<and>
         (\<forall>F v. repr h2 F (RMap r1) v \<longrightarrow> v = VMap d) \<and>
         (\<forall>F v. repr h2 F (RMap r2) v \<longrightarrow> v = VMap d) \<and>
         r1 = length h0 \<and> r2 = length h1 \<and>
         F1 \<subseteq> {length h0..<length h1} \<and> F2 \<subseteq> {length h1..<length h2} \<and> F1 \<inter> F2 = {} \<and>
         (\<forall>x<length h0. h1 ! x = h0 ! x) \<and> (\<forall>x<length h1. h2 ! x = h1 ! x)"
    using d rep1' rep2 r1 r2 F1 F2 same1 same2 by blast
qed

theorem flattening_is_pure_witness:
  "flattenRow_ref [Map.empty(''k'' \<mapsto> RString ''other'')] [''a.b''] [''x''] =
     Inr ([Map.empty(''k'' \<mapsto> RString ''other''),
           Map.empty(''a'' \<mapsto> RMap 2), Map.empty(''b'' \<mapsto> RString ''x'')], 1) \<and>
   flattenRow_ref [Map.empty(''k'' \<mapsto> RString ''other''),
           Map.empty(''a'' \<mapsto> RMap 2), Map.empty(''b'' \<mapsto> RString ''x'')] [''a.b''] [''x''] =
     Inr ([Map.empty(''k'' \<mapsto> RString ''other''),
           Map.empty(''a'' \<mapsto> RMap 2), Map.empty(''b'' \<mapsto> RString ''x''),
           Map.empty(''a'' \<mapsto> RMap 4), Map.empty(''b'' \<mapsto> RString ''x'')], 3) \<and>
   flattenRow [''a.b''] [''x''] = Inr (Map.empty(''a'' \<mapsto> VMap (Map.empty(''b'' \<mapsto> VString ''x'')))) \<and>
   (\<exists>F1 F2.
      repr [Map.empty(''k'' \<mapsto> RString ''other''),
           Map.empty(''a'' \<mapsto> RMap 2), Map.empty(''b'' \<mapsto> RString ''x''),
           Map.empty(''a'' \<mapsto> RMap 4), Map.empty(''b'' \<mapsto> RString ''x'')] F1 (RMap 1)
        (VMap (Map.empty(''a'' \<mapsto> VMap (Map.empty(''b'' \<mapsto> VString ''x''))))) \<and>
      repr [Map.empty(''k'' \<mapsto> RString ''other''),
           Map.empty(''a'' \<mapsto> RMap 2), Map.empty(''b'' \<mapsto> RString ''x''),
           Map.empty(''a'' \<mapsto> RMap 4), Map.empty(''b'' \<mapsto> RString ''x'')] F2 (RMap 3)
        (VMap (Map.empty(''a'' \<mapsto> VMap (Map.empty(''b'' \<mapsto> VString ''x''))))) \<and>
      F1 \<inter> F2 = {})"
proof -
  let ?hs = "[''a.b'']" and ?vs = "[''x'']"
  let ?h0 = "[Map.empty(''k'' \<mapsto> RString ''other'')]"
  let ?h1 = "[Map.empty(''k'' \<mapsto> RString ''other''),
           Map.empty(''a'' \<mapsto> RMap 2), Map.empty(''b'' \<mapsto> RString ''x'')]"
  let ?h2 = "[Map.empty(''k'' \<mapsto> RString ''other''),
           Map.empty(''a'' \<mapsto> RMap 2), Map.empty(''b'' \<mapsto> RString ''x''),
           Map.empty(''a'' \<mapsto> RMap 4), Map.empty(''b'' \<mapsto> RString ''x'')]"
  let ?d = "Map.empty(''a'' \<mapsto> VMap (Map.empty(''b'' \<mapsto> VString ''x'')))"
  have run1: "flattenRow_ref ?h0 ?hs ?vs = Inr (?h1, 1)"
    by (simp add: flattenRow_ref_def make_def buildNestedDict_ref_def Split.simps Let_def
        eval_nat_numeral)
  have run2: "flattenRow_ref ?h1 ?hs ?vs = Inr (?h2, 3)"
    by (simp add: flattenRow_ref_def make_def buildNestedDict_ref_def Split.simps Let_def
        eval_nat_numeral)
  have tree: "flattenRow ?hs ?vs = Inr ?d"
    by (simp add: flattenRow_def buildNestedDict_def Split.simps)
  from flattening_is_pure [of ?hs ?vs] have
    "flattenRow_ref ?h0 ?hs ?vs = Inr (?h1, 1) \<and> flattenRow_ref ?h1 ?hs ?vs = Inr (?h2, 3) \<longrightarrow>
      (\<exists>d F1 F2. flattenRow ?hs ?vs = Inr d \<and>
         repr ?h2 F1 (RMap 1) (VMap d) \<and> repr ?h2 F2 (RMap 3) (VMap d) \<and>
         (\<forall>F v. repr ?h2 F (RMap 1) v \<longrightarrow> v = VMap d) \<and>
         (\<forall>F v. repr ?h2 F (RMap 3) v \<longrightarrow> v = VMap d) \<and>
         1 = length ?h0 \<and> 3 = length ?h1 \<and>
         F1 \<subseteq> {length ?h0..<length ?h1} \<and> F2 \<subseteq> {length ?h1..<length ?h2} \<and> F1 \<inter> F2 = {} \<and>
         (\<forall>x<length ?h0. ?h1 ! x = ?h0 ! x) \<and> (\<forall>x<length ?h1. ?h2 ! x = ?h1 ! x))"
    by blast
  with run1 run2 obtain d F1 F2 where
    "flattenRow ?hs ?vs = Inr d" "repr ?h2 F1 (RMap 1) (VMap d)"
    "repr ?h2 F2 (RMap 3) (VMap d)" "F1 \<inter> F2 = {}"
    by blast
  with tree have "\<exists>F1 F2. repr ?h2 F1 (RMap 1) (VMap ?d) \<and> repr ?h2 F2 (RMap 3) (VMap ?d) \<and>
      F1 \<inter> F2 = {}"
    by auto
  with run1 run2 tree show ?thesis by blast
qed

subsection \<open>What one call leaves alone\<close>

text \<open>
  Claim C10. For every record (a tree, as every payload that the program builds is), a
  call that returns changes the record along its path only: every top-level key other
  than the first part keeps its binding (for a reserved header the first part is the
  header itself); at every depth of the walk, a key other than the part walked there
  reads as before; and so does every path that is neither a prefix of the header's path
  nor a continuation of it.
\<close>

theorem buildNestedDict_frame:
  assumes b: "buildNestedDict dict path val = Inr dict'"
  shows "(\<forall>k. k \<noteq> hd (parts path) \<longrightarrow> dict' k = dict k) \<and>
    (reserved path \<longrightarrow> hd (parts path) = path) \<and>
    (\<forall>i<length (parts path). \<forall>k. k \<noteq> parts path ! i \<longrightarrow>
       lookup_path dict' (take i (parts path) @ [k]) = lookup_path dict (take i (parts path) @ [k])) \<and>
    (\<forall>q. \<not> prefix q (parts path) \<and> \<not> prefix (parts path) q \<longrightarrow>
       lookup_path dict' q = lookup_path dict q)"
proof -
  let ?p = "parts path"
  have apart: "lookup_path dict' q = lookup_path dict q"
    if "\<not> prefix q ?p" "\<not> prefix ?p q" for q
    using b that by (rule build_frame)
  have level: "lookup_path dict' (take i ?p @ [k]) = lookup_path dict (take i ?p @ [k])"
    if i: "i < length ?p" and k: "k \<noteq> ?p ! i" for i k
  proof (rule apart)
    from i have p: "?p = take i ?p @ ?p ! i # drop (Suc i) ?p"
      by (simp add: id_take_nth_drop [symmetric])
    show "\<not> prefix (take i ?p @ [k]) ?p"
    proof
      assume "prefix (take i ?p @ [k]) ?p"
      then have "prefix (take i ?p @ [k]) (take i ?p @ ?p ! i # drop (Suc i) ?p)"
        using p by simp
      with k show False by simp
    qed
    show "\<not> prefix ?p (take i ?p @ [k])"
    proof
      assume "prefix ?p (take i ?p @ [k])"
      then have "prefix (take i ?p @ ?p ! i # drop (Suc i) ?p) (take i ?p @ [k])"
        using p by simp
      with k show False by simp
    qed
  qed
  have top: "dict' k = dict k" if "k \<noteq> hd ?p" for k
  proof -
    have "0 < length ?p" by simp
    moreover from that have "k \<noteq> ?p ! 0" by (simp add: hd_conv_nth)
    ultimately have "lookup_path dict' (take 0 ?p @ [k]) = lookup_path dict (take 0 ?p @ [k])"
      by (rule level)
    then show ?thesis
      by (simp add: lookup_path_Cons split: option.splits)
  qed
  from top level apart show ?thesis
    by (auto simp: parts_reserved)
qed

theorem buildNestedDict_frame_witness:
  "buildNestedDict
     (Map.empty(''a'' \<mapsto> VMap (Map.empty(''b'' \<mapsto> VString ''x'')), ''c'' \<mapsto> VString ''z''))
     ''a.d'' ''y'' =
     Inr (Map.empty(''c'' \<mapsto> VString ''z'',
        ''a'' \<mapsto> VMap (Map.empty(''b'' \<mapsto> VString ''x'', ''d'' \<mapsto> VString ''y'')))) \<and>
   (Map.empty(''c'' \<mapsto> VString ''z'',
        ''a'' \<mapsto> VMap (Map.empty(''b'' \<mapsto> VString ''x'', ''d'' \<mapsto> VString ''y'')))) ''c'' =
     Some (VString ''z'') \<and>
   lookup_path (Map.empty(''c'' \<mapsto> VString ''z'',
        ''a'' \<mapsto> VMap (Map.empty(''b'' \<mapsto> VString ''x'', ''d'' \<mapsto> VString ''y''))))
     [''a'', ''b''] = Some (VString ''x'')"
proof -
  let ?d = "Map.empty(''a'' \<mapsto> VMap (Map.empty(''b'' \<mapsto> VString ''x'')), ''c'' \<mapsto> VString ''z'')"
  let ?d' = "Map.empty(''c'' \<mapsto> VString ''z'',
        ''a'' \<mapsto> VMap (Map.empty(''b'' \<mapsto> VString ''x'', ''d'' \<mapsto> VString ''y'')))"
  have p: "parts ''a.d'' = [''a'', ''d'']"
    by (simp add: parts_def Split.simps)
  have b: "buildNestedDict ?d ''a.d'' ''y'' = Inr ?d'"
    by (simp add: buildNestedDict_def Split.simps fun_upd_twist)
  from buildNestedDict_frame [OF b] have
    top: "\<forall>k. k \<noteq> hd (parts ''a.d'') \<longrightarrow> ?d' k = ?d k"
    and level: "\<forall>i<length (parts ''a.d''). \<forall>k. k \<noteq> parts ''a.d'' ! i \<longrightarrow>
       lookup_path ?d' (take i (parts ''a.d'') @ [k]) = lookup_path ?d (take i (parts ''a.d'') @ [k])"
    by blast+
  from top have "''c'' \<noteq> hd (parts ''a.d'') \<longrightarrow> ?d' ''c'' = ?d ''c''" by blast
  then have c: "?d' ''c'' = Some (VString ''z'')"
    by (simp add: p)
  from level [rule_format, of 1 "''b''"]
  have "lookup_path ?d' (take 1 (parts ''a.d'') @ [''b'']) = lookup_path ?d (take 1 (parts ''a.d'') @ [''b''])"
    by (simp add: p)
  then have ab: "lookup_path ?d' [''a'', ''b''] = Some (VString ''x'')"
    by (simp add: p lookup_path_def)
  from b c ab show ?thesis by simp
qed

end
